theory Spec2Isabelle
  imports Main "HOL-Library.Word"
begin

section \<open>JavaScript strings\<close>

text \<open>
  A JavaScript string is a sequence of UTF-16 code units. The regular expressions of the
  source carry no \<open>u\<close> flag, so they too work on code units.
\<close>

type_synonym jschar = "16 word"
type_synonym jsstring = "jschar list"

text \<open>An ASCII literal of the source, as code units.\<close>

definition js :: "string \<Rightarrow> jsstring" where
  "js s = map of_char s"

text \<open>
  The class \<open>\s\<close> of a regular expression and the characters that \<open>String.prototype.trim\<close>
  strips are the same set: ECMAScript's WhiteSpace (TAB, VT, FF, ZWNBSP and the category Zs)
  together with LineTerminator (LF, CR, LS, PS).
\<close>

definition isWhiteSpace :: "jschar \<Rightarrow> bool" where
  "isWhiteSpace c \<longleftrightarrow>
     c = 0x09 \<or> c = 0x0A \<or> c = 0x0B \<or> c = 0x0C \<or> c = 0x0D \<or> c = 0x20 \<or> c = 0xA0 \<or>
     c = 0x1680 \<or> (0x2000 \<le> c \<and> c \<le> 0x200A) \<or> c = 0x2028 \<or> c = 0x2029 \<or>
     c = 0x202F \<or> c = 0x205F \<or> c = 0x3000 \<or> c = 0xFEFF"

text \<open>The class \<open>[.!?]\<close>.\<close>

definition isTerminator :: "jschar \<Rightarrow> bool" where
  "isTerminator c \<longleftrightarrow> c = 0x2E \<or> c = 0x21 \<or> c = 0x3F"

text \<open>\<open>s.trim()\<close>.\<close>

definition trim :: "jsstring \<Rightarrow> jsstring" where
  "trim s = rev (dropWhile isWhiteSpace (rev (dropWhile isWhiteSpace s)))"

subsection \<open>Regular expressions\<close>

text \<open>
  The regular expressions of the source use character classes, \<open>+\<close> on a class, \<open>$\<close>,
  sequence and alternation. None has a flag other than \<open>g\<close>, so a class tests one code
  unit and \<open>$\<close> is the end of the input.
\<close>

datatype regex =
    Class "jschar \<Rightarrow> bool"
  | ClassPlus "jschar \<Rightarrow> bool"
  | EndOfInput
  | Seq regex regex
  | Alt regex regex

text \<open>
  The ways in which \<open>C+\<close> matches at the start of the input, each given by the input that
  is left, longest match first: the quantifier is greedy and gives back one character at a
  time when what follows fails.
\<close>

fun plus_ends :: "(jschar \<Rightarrow> bool) \<Rightarrow> jsstring \<Rightarrow> jsstring list" where
  "plus_ends P [] = []"
| "plus_ends P (c # cs) = (if P c then plus_ends P cs @ [cs] else [])"

text \<open>
  The ways in which an expression matches at the start of the input, in the order in which
  the backtracking matcher of ECMAScript finds them: the left alternative before the right,
  and for a sequence the ways of its second part under each way of its first.
\<close>

fun ends :: "regex \<Rightarrow> jsstring \<Rightarrow> jsstring list" where
  "ends (Class P) s = (case s of [] \<Rightarrow> [] | c # cs \<Rightarrow> if P c then [cs] else [])"
| "ends (ClassPlus P) s = plus_ends P s"
| "ends EndOfInput s = (if s = [] then [[]] else [])"
| "ends (Seq r1 r2) s = concat (map (ends r2) (ends r1 s))"
| "ends (Alt r1 r2) s = ends r1 s @ ends r2 s"

text \<open>The match at the start of the input, if any: the text matched and the input left.\<close>

definition exec_at :: "regex \<Rightarrow> jsstring \<Rightarrow> (jsstring \<times> jsstring) option" where
  "exec_at r s =
     (case ends r s of
        [] \<Rightarrow> None
      | rest # _ \<Rightarrow> Some (take (length s - length rest) s, rest))"

text \<open>
  \<open>s.match(r)\<close> for a global \<open>r\<close>: all matches from left to right. The search resumes
  where a match ended, one character further after an empty match or after a position
  without a match.
\<close>

function match_all :: "regex \<Rightarrow> jsstring \<Rightarrow> jsstring list" where
  "match_all r s =
     (case exec_at r s of
        None \<Rightarrow> (case s of [] \<Rightarrow> [] | c # cs \<Rightarrow> match_all r cs)
      | Some (m, rest) \<Rightarrow>
          m # (if m = [] then (case s of [] \<Rightarrow> [] | c # cs \<Rightarrow> match_all r cs)
               else match_all r rest))"
  by pat_completeness auto
termination
  by (relation "measure (\<lambda>(r, s). length s)")
    (auto simp: exec_at_def split: list.splits)

declare match_all.simps [simp del]

text \<open>\<open>s.replace(r, rep)\<close> for a global \<open>r\<close> and a replacement text without patterns.\<close>

function replace_all :: "regex \<Rightarrow> jsstring \<Rightarrow> jsstring \<Rightarrow> jsstring" where
  "replace_all r rep s =
     (case exec_at r s of
        None \<Rightarrow> (case s of [] \<Rightarrow> [] | c # cs \<Rightarrow> c # replace_all r rep cs)
      | Some (m, rest) \<Rightarrow>
          rep @ (if m = [] then (case s of [] \<Rightarrow> [] | c # cs \<Rightarrow> c # replace_all r rep cs)
                 else replace_all r rep rest))"
  by pat_completeness auto
termination
  by (relation "measure (\<lambda>(r, rep, s). length s)")
    (auto simp: exec_at_def split: list.splits)

declare replace_all.simps [simp del]

text \<open>\<open>s.replace(r, rep)\<close> for an \<open>r\<close> that is not global: the leftmost match only.\<close>

fun replace_first :: "regex \<Rightarrow> jsstring \<Rightarrow> jsstring \<Rightarrow> jsstring" where
  "replace_first r rep [] = (case exec_at r [] of None \<Rightarrow> [] | Some (m, rest) \<Rightarrow> rep @ rest)"
| "replace_first r rep (c # cs) =
     (case exec_at r (c # cs) of
        None \<Rightarrow> c # replace_first r rep cs
      | Some (m, rest) \<Rightarrow> rep @ rest)"

text \<open>\<open>/\s+/g\<close>\<close>

definition WHITESPACE_RUN :: regex where
  "WHITESPACE_RUN = ClassPlus isWhiteSpace"

text \<open>\<open>/[^.!?]+[.!?]+|[^.!?]+$/g\<close>\<close>

definition SENTENCE :: regex where
  "SENTENCE =
     Alt (Seq (ClassPlus (\<lambda>c. \<not> isTerminator c)) (ClassPlus isTerminator))
         (Seq (ClassPlus (\<lambda>c. \<not> isTerminator c)) EndOfInput)"

text \<open>\<open>/\.[^.]+$/\<close>\<close>

definition EXTENSION :: regex where
  "EXTENSION = Seq (Class (\<lambda>c. c = 0x2E)) (Seq (ClassPlus (\<lambda>c. c \<noteq> 0x2E)) EndOfInput)"

text \<open>\<open>s.replace(/\s+/g, " ")\<close>\<close>

definition replace_ws :: "jsstring \<Rightarrow> jsstring" where
  "replace_ws s = replace_all WHITESPACE_RUN (js '' '') s"

text \<open>
  \<open>s.match(/[^.!?]+[.!?]+|[^.!?]+$/g)\<close>: the array of all matches, or \<open>null\<close> (here
  \<open>None\<close>) when there is none.
\<close>

definition match_g :: "jsstring \<Rightarrow> jsstring list option" where
  "match_g s = (case match_all SENTENCE s of [] \<Rightarrow> None | m # ms \<Rightarrow> Some (m # ms))"

subsection \<open>The two global expressions, run by run\<close>

text \<open>
  What the two global expressions compute, written with \<open>takeWhile\<close> and \<open>dropWhile\<close>;
  both functions are proved equal to the matcher above and serve the proofs.

  \<open>collapse_runs\<close>: every maximal run of white space becomes one space.
\<close>

function collapse_runs :: "jsstring \<Rightarrow> jsstring" where
  "collapse_runs [] = []"
| "collapse_runs (c # cs) =
     (if isWhiteSpace c then 0x20 # collapse_runs (dropWhile isWhiteSpace cs)
      else c # collapse_runs cs)"
  by pat_completeness auto
termination
  by (relation "measure length") (auto simp: less_Suc_eq_le length_dropWhile_le)

text \<open>
  \<open>sentence_runs\<close>: no alternative of the sentence expression can start at a terminator,
  so the search moves past leading terminators. At a non-terminator the greedy \<open>[^.!?]+\<close>
  takes the whole run of non-terminators. If the input ends there, the first alternative
  fails (backtracking only shortens the run, and then a non-terminator follows) and the
  second one, \<open>[^.!?]+$\<close>, matches the run. Otherwise a terminator follows and the first
  alternative matches the run and the whole run of terminators after it. The search
  resumes where the match ended.
\<close>

function sentence_runs :: "jsstring \<Rightarrow> jsstring list" where
  "sentence_runs s =
     (let s1 = dropWhile isTerminator s in
      if s1 = [] then []
      else
        let body = takeWhile (\<lambda>c. \<not> isTerminator c) s1;
            rest = dropWhile (\<lambda>c. \<not> isTerminator c) s1
        in if rest = [] then [body]
           else (body @ takeWhile isTerminator rest)
                  # sentence_runs (dropWhile isTerminator rest))"
  by pat_completeness auto
termination
proof (relation "measure length")
  fix s s1 body rest :: jsstring
  assume a: "s1 = dropWhile isTerminator s" "s1 \<noteq> []"
    "rest = dropWhile (\<lambda>c. \<not> isTerminator c) s1" "rest \<noteq> []"
  from a(1,2) have "\<not> isTerminator (hd s1)"
    using hd_dropWhile by metis
  with a(2,3) have "length rest < length s1"
    by (cases s1) (auto simp: less_Suc_eq_le length_dropWhile_le)
  moreover have "length s1 \<le> length s"
    using a(1) by (simp add: length_dropWhile_le)
  moreover have "length (dropWhile isTerminator rest) \<le> length rest"
    by (simp add: length_dropWhile_le)
  ultimately show "(dropWhile isTerminator rest, s) \<in> measure length"
    by simp
qed simp

declare sentence_runs.simps [simp del]

section \<open>The reading view (\<open>src/app/page.tsx\<close>)\<close>

definition DOUBLE_TAP_WINDOW :: int where
  "DOUBLE_TAP_WINDOW = 320"

definition MAX_SENTENCES :: nat where
  "MAX_SENTENCES = 2200"

definition DEFAULT_EXCERPT :: jsstring where
  "DEFAULT_EXCERPT = js (
     ''Reasoning Language Models: A Blueprint examines how we build agents that think.'' @
     ''\<newline>\<newline>'' @
     ''Progress in reasoning requires quiet focus. Reading everything at once is '' @
     ''overwhelming, so ChapterPal only reveals one sentence at a time. Pause, inspect, '' @
     ''question, and only then move forward.'' @
     ''\<newline>\<newline>'' @
     ''Double-tap the right edge to reveal new sentences. Double-tap the left edge when '' @
     ''you want to rewind and reconsider. Ask Grok 4.1 anything along the way and tap '' @
     ''outside the Q&A to fall back into the main text.'')"

text \<open>\<open>splitIntoSentences\<close>; the \<open>?? []\<close> of the source is the \<open>None\<close> branch.\<close>

definition splitIntoSentences :: "jsstring \<Rightarrow> jsstring list" where
  "splitIntoSentences raw =
     (case match_g (trim (replace_ws raw)) of
        None \<Rightarrow> []
      | Some ms \<Rightarrow> map trim ms)"

record DocumentMeta =
  title :: jsstring
  byline :: jsstring
  sentences_count :: nat  \<comment> \<open>the field \<open>sentences\<close> of \<open>DocumentMeta\<close>\<close>
  filename :: "jsstring option"
  truncated :: "bool option"

datatype side = Left | Right

text \<open>
  The state of \<open>Home\<close> that the reading view owns: the \<open>useState\<close> cells for the document,
  the cursor and the upload, and the \<open>touchTracker\<close> ref. The cells of the question box
  (\<open>question\<close>, \<open>chatOpen\<close>, \<open>isAsking\<close>, \<open>conversation\<close>) are written by \<open>handleAsk\<close> and
  \<open>closeChat\<close> only and are left out.

  The cells hold the values that the updates made so far give. The handlers are made anew by
  every render and keep the constants of that render: \<open>rendered_sentences\<close> is the
  \<open>sentences\<close> that the handlers of the last render hold, which is what
  \<open>sentences.length\<close> in \<open>handleReveal\<close> reads. It differs from the cell \<open>sentences\<close> from
  the moment an upload has called \<open>setSentences\<close> until React has rendered again.
\<close>

record page_state =
  documentMeta :: DocumentMeta
  sentences :: "jsstring list"
  revealed :: int
  isParsing :: bool
  uploadError :: "jsstring option"
  touchTracker :: "side \<Rightarrow> int"
  rendered_sentences :: "jsstring list"

definition initial_state :: page_state where
  "initial_state =
     \<lparr> documentMeta =
         \<lparr> title = js ''Reasoning Language Models: A Blueprint'',
           byline = js ''Maciej Besta '' @ [0xB7] @ js '' Julia Barth '' @ [0xB7] @
                    js '' Eric Schreiber '' @ [0xB7] @ js '' Ales Kubicek '' @ [0xB7] @
                    js '' more'',
           sentences_count = length (splitIntoSentences DEFAULT_EXCERPT),
           filename = None,
           truncated = None \<rparr>,
       sentences = splitIntoSentences DEFAULT_EXCERPT,
       revealed = 1,
       isParsing = False,
       uploadError = None,
       touchTracker = (\<lambda>_. 0),
       rendered_sentences = splitIntoSentences DEFAULT_EXCERPT \<rparr>"

text \<open>
  \<open>setRevealed((prev) => (prev >= sentences.length ? prev : prev + 1))\<close>: React gives the
  updater the cursor that the updates before it have produced, and \<open>sentences\<close> is the
  constant of the render that made the handler.
\<close>

definition handleReveal :: "page_state \<Rightarrow> page_state" where
  "handleReveal s =
     s\<lparr>revealed := (if revealed s \<ge> int (length (rendered_sentences s)) then revealed s
                    else revealed s + 1)\<rparr>"

text \<open>\<open>setRevealed((prev) => (prev > 1 ? prev - 1 : prev))\<close>\<close>

definition handleUnreveal :: "page_state \<Rightarrow> page_state" where
  "handleUnreveal s =
     s\<lparr>revealed := (if revealed s > 1 then revealed s - 1 else revealed s)\<rparr>"

text \<open>
  The command a tap emits is the handler that \<open>handleTouch\<close> calls; the model returns it
  next to the new state so that it can be observed.
\<close>

datatype command = Reveal | Unreveal

definition run_command :: "command option \<Rightarrow> page_state \<Rightarrow> page_state" where
  "run_command c s =
     (case c of None \<Rightarrow> s | Some Reveal \<Rightarrow> handleReveal s | Some Unreveal \<Rightarrow> handleUnreveal s)"

text \<open>\<open>handleTouch(side)\<close> at the time \<open>now = Date.now()\<close>.\<close>

definition handleTouch :: "side \<Rightarrow> int \<Rightarrow> page_state \<Rightarrow> command option \<times> page_state" where
  "handleTouch sd now s =
     (let lastTap = touchTracker s sd;
          emitted = (if now - lastTap < DOUBLE_TAP_WINDOW
                     then (if sd = Right then Some Reveal else Some Unreveal)
                     else None);
          s1 = run_command emitted s
      in (emitted, s1\<lparr>touchTracker := (touchTracker s1)(sd := now)\<rparr>))"

text \<open>
  A run of \<open>touchend\<close> events, each with its side and its \<open>Date.now()\<close>: the commands
  emitted, tap by tap, and the final state.
\<close>

fun handleTouches :: "(side \<times> int) list \<Rightarrow> page_state \<Rightarrow> command option list \<times> page_state" where
  "handleTouches [] s = ([], s)"
| "handleTouches ((sd, now) # taps) s =
     (let (c, s1) = handleTouch sd now s;
          (cs, s2) = handleTouches taps s1
      in (c # cs, s2))"

text \<open>What a \<open>catch\<close> clause receives: an \<open>Error\<close> with its message, or any other value.\<close>

datatype thrown = ErrorObj jsstring | OtherValue

text \<open>
  An uploaded \<open>File\<close>. The collaborators outside the repository are given by their results:
  \<open>file_text\<close> is what \<open>file.text()\<close> settles to and \<open>pdf_text\<close> what
  \<open>extractTextFromPdf(file)\<close> (pdfjs-dist) settles to, \<open>Inl\<close> being a rejection.
  \<open>size_label\<close> is \<open>formatBytes(file.size)\<close>, which is computed in floating point
  (\<open>Math.log\<close>, \<open>toFixed\<close>) and is kept as given.
\<close>

record File =
  file_name :: jsstring
  file_type :: jsstring
  size_label :: jsstring
  file_text :: "thrown + jsstring"
  pdf_text :: "thrown + jsstring"

text \<open>
  \<open>file.name.toLowerCase().endsWith(".pdf")\<close>. Only \<open>P\<close>, \<open>D\<close> and \<open>F\<close> lower-case to
  \<open>p\<close>, \<open>d\<close> and \<open>f\<close>, so the test reads the last four code units of the name.
\<close>

definition ends_with_pdf :: "jsstring \<Rightarrow> bool" where
  "ends_with_pdf n =
     (case rev n of
        f # d # p # dot # _ \<Rightarrow>
          dot = 0x2E \<and> (p = 0x70 \<or> p = 0x50) \<and> (d = 0x64 \<or> d = 0x44) \<and> (f = 0x66 \<or> f = 0x46)
      | _ \<Rightarrow> False)"

definition extractText :: "File \<Rightarrow> thrown + jsstring" where
  "extractText f =
     (if file_type f = js ''application/pdf'' \<or> ends_with_pdf (file_name f)
      then pdf_text f else file_text f)"

text \<open>\<open>name.replace(/\.[^.]+$/, "")\<close>\<close>

definition strip_extension :: "jsstring \<Rightarrow> jsstring" where
  "strip_extension n = replace_first EXTENSION [] n"

definition NO_SENTENCES_MESSAGE :: jsstring where
  "NO_SENTENCES_MESSAGE = js ''I couldn't find readable sentences in that file.''"

text \<open>
  The \<open>try\<close> block of \<open>handleFileChange\<close> up to its first state update: \<open>Inl\<close> is the
  value thrown, \<open>Inr\<close> the arguments of \<open>setSentences\<close> and \<open>setDocumentMeta\<close>.
\<close>

definition ingest :: "File \<Rightarrow> thrown + (jsstring list \<times> DocumentMeta)" where
  "ingest f =
     (case extractText f of
        Inl e \<Rightarrow> Inl e
      | Inr rawText \<Rightarrow>
          (let clean = trim (replace_ws rawText);
               nextSentences = take MAX_SENTENCES (splitIntoSentences clean)
           in if length nextSentences = 0 then Inl (ErrorObj NO_SENTENCES_MESSAGE)
              else Inr (nextSentences,
                \<lparr> title = (let t = strip_extension (file_name f)
                            in if t = [] then js ''Untitled document'' else t),
                  byline = size_label f @ js '' '' @ [0xB7] @ js '' '' @
                           (if file_type f = [] then js ''Unknown type'' else file_type f),
                  sentences_count = length nextSentences,
                  filename = Some (file_name f),
                  truncated = Some (length nextSentences \<ge> MAX_SENTENCES) \<rparr>)))"

text \<open>The message of the \<open>catch\<close> clause.\<close>

definition catch_message :: "thrown \<Rightarrow> jsstring" where
  "catch_message e =
     (case e of ErrorObj m \<Rightarrow> m
      | OtherValue \<Rightarrow> js ''Unexpected error while parsing that file.'')"

text \<open>
  \<open>handleFileChange\<close> is asynchronous. Before it awaits the text it clears the error and
  raises \<open>isParsing\<close>; when the text has settled it runs the rest of the \<open>try\<close> block, the
  \<open>catch\<close> clause and \<open>finally\<close> in one go. None of the updates of the second part reads the
  state, and React applies the updates of one continuation together. They do not render:
  the handlers stay those of the last render until React renders again.
\<close>

definition handleFileChange_begin :: "page_state \<Rightarrow> page_state" where
  "handleFileChange_begin s = s\<lparr>uploadError := None, isParsing := True\<rparr>"

definition handleFileChange_settle :: "File \<Rightarrow> page_state \<Rightarrow> page_state" where
  "handleFileChange_settle f s =
     (case ingest f of
        Inr (nextSentences, meta) \<Rightarrow>
          s\<lparr>sentences := nextSentences, revealed := 1, documentMeta := meta, isParsing := False\<rparr>
      | Inl e \<Rightarrow>
          s\<lparr>uploadError := Some (catch_message e), isParsing := False\<rparr>)"

text \<open>The whole handler; \<open>None\<close> is an event without a file (\<open>if (!file) return\<close>).\<close>

definition handleFileChange :: "File option \<Rightarrow> page_state \<Rightarrow> page_state" where
  "handleFileChange fo s =
     (case fo of
        None \<Rightarrow> s
      | Some f \<Rightarrow> handleFileChange_settle f (handleFileChange_begin s))"

text \<open>
  The events of the reading view. A double click calls the handler of its side directly;
  a chosen file begins an upload, which settles at some later event; a render of React
  makes the handlers anew, with the sentences of the cell.
\<close>

datatype event =
    DoubleClick side
  | TouchEnd side int
  | FileChosen "File option"
  | FileSettled File
  | Rerender

fun step :: "event \<Rightarrow> page_state \<Rightarrow> page_state" where
  "step (DoubleClick Right) s = handleReveal s"
| "step (DoubleClick Left) s = handleUnreveal s"
| "step (TouchEnd sd now) s = snd (handleTouch sd now s)"
| "step (FileChosen None) s = s"
| "step (FileChosen (Some f)) s = handleFileChange_begin s"
| "step (FileSettled f) s = handleFileChange_settle f s"
| "step Rerender s = s\<lparr>rendered_sentences := sentences s\<rparr>"

inductive reachable :: "page_state \<Rightarrow> bool" where
  reachable_init: "reachable initial_state"
| reachable_step: "reachable s \<Longrightarrow> reachable (step e s)"

subsection \<open>Runs of taps and example documents\<close>

text \<open>
  The claim about runs of taps, in its own words: the times of a run of taps in which every
  consecutive gap is smaller than the window, and a run of emissions that fires on every
  other tap (of two consecutive taps exactly one fires).
\<close>

fun gaps_within :: "int list \<Rightarrow> bool" where
  "gaps_within (a # b # ts) = (b - a < DOUBLE_TAP_WINDOW \<and> gaps_within (b # ts))"
| "gaps_within _ = True"

fun fires_every_other :: "command option list \<Rightarrow> bool" where
  "fires_every_other (c # d # cs) = ((c = None) \<noteq> (d = None) \<and> fires_every_other (d # cs))"
| "fires_every_other _ = True"

text \<open>The command of a side: \<open>right\<close> reveals, \<open>left\<close> unreveals.\<close>

definition side_command :: "side \<Rightarrow> command" where
  "side_command sd = (if sd = Right then Reveal else Unreveal)"

text \<open>
  A reading view with a document of three sentences, rendered, with the cursor at \<open>c\<close>, for
  the examples.
\<close>

definition three_sentences :: "int \<Rightarrow> page_state" where
  "three_sentences c =
     initial_state\<lparr>sentences := [js ''Hello world.'', js ''How are you?'', js ''Fine!''],
                   revealed := c,
                   rendered_sentences :=
                     [js ''Hello world.'', js ''How are you?'', js ''Fine!'']\<rparr>"

text \<open>
  Uploads for the examples: a text file of three sentences, one of a single sentence, a
  file without a sentence and a PDF whose extraction fails.
\<close>

definition hello_file :: File where
  "hello_file =
     \<lparr> file_name = js ''hello.txt'', file_type = js ''text/plain'', size_label = js ''31 B'',
       file_text = Inr (js ''Hello world. How are you? Fine!''),
       pdf_text = Inl OtherValue \<rparr>"

definition one_sentence_file :: File where
  "one_sentence_file =
     \<lparr> file_name = js ''one.txt'', file_type = js ''text/plain'', size_label = js ''3 B'',
       file_text = Inr (js ''Hi.''),
       pdf_text = Inl OtherValue \<rparr>"

definition blank_file :: File where
  "blank_file =
     \<lparr> file_name = js ''blank.txt'', file_type = js ''text/plain'', size_label = js ''5 B'',
       file_text = Inr (js '' ...\<newline>''),
       pdf_text = Inl OtherValue \<rparr>"


text \<open>A text file of \<open>n\<close> sentences \<open>a.\<close>, for the examples at the maximum.\<close>

definition many_sentences_file :: "nat \<Rightarrow> File" where
  "many_sentences_file n =
     \<lparr> file_name = js ''many.txt'', file_type = js ''text/plain'', size_label = js ''4.3 KB'',
       file_text = Inr (concat (replicate n (js ''a.''))),
       pdf_text = Inl OtherValue \<rparr>"

section \<open>The question proxy (\<open>src/app/api/ask/route.ts\<close>)\<close>

text \<open>
  A value that \<open>JSON.parse\<close> produces. An object is the list of its members in the order of
  the text; where a key is repeated the last member wins. A number is carried as the text
  that \<open>ToString\<close> gives it (number formatting is floating point and is not modelled); zero,
  the only number that is falsy here, has the text \<open>0\<close>. JavaScript's \<open>undefined\<close> is \<open>None\<close>
  of \<open>json option\<close>.
\<close>

datatype json =
    JNull
  | JBool bool
  | JNum jsstring
  | JStr jsstring
  | JArr "json list"
  | JObj "(jsstring \<times> json) list"

text \<open>
  \<open>v.name\<close> on a value other than \<open>null\<close>, for the names that the source reads
  (\<open>question\<close>, \<open>context\<close>, \<open>choices\<close>, \<open>message\<close>, \<open>content\<close>, \<open>output\<close>, \<open>output_text\<close>,
  \<open>text\<close>, \<open>error\<close>): none of them is a property of the prototypes of objects, arrays,
  strings, numbers or booleans, so only an object's own member answers.
\<close>

fun get_field :: "json \<Rightarrow> jsstring \<Rightarrow> json option" where
  "get_field (JObj kvs) k = map_of (rev kvs) k"
| "get_field _ k = None"

text \<open>\<open>v[0]\<close> on a value other than \<open>null\<close>.\<close>

fun get_index0 :: "json \<Rightarrow> json option" where
  "get_index0 (JArr xs) = (case xs of [] \<Rightarrow> None | x # _ \<Rightarrow> Some x)"
| "get_index0 (JStr s) = (case s of [] \<Rightarrow> None | c # _ \<Rightarrow> Some (JStr [c]))"
| "get_index0 (JObj kvs) = map_of (rev kvs) (js ''0'')"
| "get_index0 _ = None"

text \<open>Optional chaining \<open>v?.\<close>: \<open>undefined\<close> when \<open>v\<close> is \<open>undefined\<close> or \<open>null\<close>.\<close>

definition opt_chain :: "json option \<Rightarrow> (json \<Rightarrow> json option) \<Rightarrow> json option" where
  "opt_chain v f = (case v of None \<Rightarrow> None | Some JNull \<Rightarrow> None | Some x \<Rightarrow> f x)"

text \<open>Truthiness, as \<open>!v\<close> and \<open>v || d\<close> test it.\<close>

fun truthy :: "json option \<Rightarrow> bool" where
  "truthy None = False"
| "truthy (Some JNull) = False"
| "truthy (Some (JBool b)) = b"
| "truthy (Some (JNum t)) = (t \<noteq> js ''0'')"
| "truthy (Some (JStr s)) = (s \<noteq> [])"
| "truthy (Some (JArr xs)) = True"
| "truthy (Some (JObj kvs)) = True"

text \<open>
  The \<open>TypeError\<close>s that the engine itself can raise in this file. Their messages are the
  engine's; the functions below take them as the parameter \<open>engine\<close>.
\<close>

datatype type_error =
    NoPrimitiveValue  \<comment> \<open>an object cannot be converted to a string\<close>
  | NotAFunction      \<comment> \<open>\<open>question?.trim\<close> is not callable\<close>
  | NullDestructured  \<comment> \<open>the request body is \<open>null\<close>\<close>
  | NullProperty      \<comment> \<open>a property of \<open>null\<close> is read\<close>

text \<open>
  \<open>ToString(v)\<close> and \<open>xs.join(sep)\<close>. An object that has a member \<open>toString\<close> of its own
  hides \<open>Object.prototype.toString\<close> with a value that cannot be called, and
  \<open>Object.prototype.valueOf\<close> returns the object, so the conversion throws; any other
  object gives \<open>[object Object]\<close>. An array converts by \<open>join(",")\<close>. \<open>join\<close> takes \<open>null\<close>
  and \<open>undefined\<close> elements as the empty string.
\<close>

fun toString :: "(type_error \<Rightarrow> jsstring) \<Rightarrow> json \<Rightarrow> thrown + jsstring"
  and join_values :: "(type_error \<Rightarrow> jsstring) \<Rightarrow> jsstring \<Rightarrow> json list \<Rightarrow> thrown + jsstring"
where
  "toString engine JNull = Inr (js ''null'')"
| "toString engine (JBool b) = Inr (if b then js ''true'' else js ''false'')"
| "toString engine (JNum t) = Inr t"
| "toString engine (JStr s) = Inr s"
| "toString engine (JArr xs) = join_values engine (js '','') xs"
| "toString engine (JObj kvs) =
     (if map_of (rev kvs) (js ''toString'') \<noteq> None
      then Inl (ErrorObj (engine NoPrimitiveValue))
      else Inr (js ''[object Object]''))"
| "join_values engine sep [] = Inr []"
| "join_values engine sep (x # xs) =
     (case (if x = JNull then Inr [] else toString engine x) of
        Inl e \<Rightarrow> Inl e
      | Inr s \<Rightarrow>
          (case join_values engine sep xs of
             Inl e \<Rightarrow> Inl e
           | Inr r \<Rightarrow> Inr (if xs = [] then s else s @ sep @ r)))"

definition FALLBACK_MESSAGE :: jsstring where
  "FALLBACK_MESSAGE = js (
     ''Set the GROK_API_KEY environment variable to proxy questions to Grok 4.1. '' @
     ''You're seeing a local demo response instead.'')"

definition NO_TEXT_MESSAGE :: jsstring where
  "NO_TEXT_MESSAGE = js ''Grok responded without readable text.''"

text \<open>\<open>chunk?.text ?? ""\<close>\<close>

definition chunk_text :: "json \<Rightarrow> json" where
  "chunk_text chunk =
     (case opt_chain (Some chunk) (\<lambda>c. get_field c (js ''text'')) of
        None \<Rightarrow> JStr []
      | Some JNull \<Rightarrow> JStr []
      | Some v \<Rightarrow> v)"

text \<open>
  \<open>normalizeGrokResponse\<close>, applied to what \<open>response.json()\<close> settles to (\<open>Inl\<close> when the
  body is not JSON).
\<close>

definition normalizeGrokResponse ::
  "(type_error \<Rightarrow> jsstring) \<Rightarrow> thrown + json \<Rightarrow> thrown + jsstring" where
  "normalizeGrokResponse engine response_json =
     (case response_json of
        Inl e \<Rightarrow> Inl e
      | Inr data \<Rightarrow>
          (let primary =
                 opt_chain (opt_chain (opt_chain (opt_chain (Some data)
                     (\<lambda>v. get_field v (js ''choices'')))
                     get_index0)
                     (\<lambda>v. get_field v (js ''message'')))
                     (\<lambda>v. get_field v (js ''content''))
           in case primary of
                Some (JStr s) \<Rightarrow> Inr s
              | Some (JArr chunks) \<Rightarrow>
                  join_values engine (js ''\<newline>'') (map chunk_text chunks)
              | _ \<Rightarrow>
                  (let outputBlocks =
                         opt_chain (opt_chain (opt_chain (Some data)
                             (\<lambda>v. get_field v (js ''output'')))
                             get_index0)
                             (\<lambda>v. get_field v (js ''content''))
                   in case outputBlocks of
                        Some (JArr chunks) \<Rightarrow>
                          join_values engine (js ''\<newline>'') (map chunk_text chunks)
                      | _ \<Rightarrow>
                          (let outputText =
                                 opt_chain (Some data) (\<lambda>v. get_field v (js ''output_text''))
                           in case outputText of
                                Some (JArr xs) \<Rightarrow> join_values engine (js ''\<newline>'') xs
                              | Some (JStr s) \<Rightarrow> Inr s
                              | _ \<Rightarrow> Inr NO_TEXT_MESSAGE))))"

text \<open>
  The claim's reading of the normalisation: the shapes of a provider response, each a
  partial extractor, tried in a fixed order; the first that is found gives the answer.
\<close>

definition content_of :: "json \<Rightarrow> json option" where
  "content_of data =
     opt_chain (opt_chain (opt_chain (opt_chain (Some data)
         (\<lambda>v. get_field v (js ''choices''))) get_index0)
         (\<lambda>v. get_field v (js ''message''))) (\<lambda>v. get_field v (js ''content''))"

definition output_content_of :: "json \<Rightarrow> json option" where
  "output_content_of data =
     opt_chain (opt_chain (opt_chain (Some data)
         (\<lambda>v. get_field v (js ''output''))) get_index0) (\<lambda>v. get_field v (js ''content''))"

definition output_text_of :: "json \<Rightarrow> json option" where
  "output_text_of data = opt_chain (Some data) (\<lambda>v. get_field v (js ''output_text''))"

definition shape_content_string :: "(type_error \<Rightarrow> jsstring) \<Rightarrow> json \<Rightarrow> (thrown + jsstring) option" where
  "shape_content_string engine data =
     (case content_of data of Some (JStr s) \<Rightarrow> Some (Inr s) | _ \<Rightarrow> None)"

definition shape_content_chunks :: "(type_error \<Rightarrow> jsstring) \<Rightarrow> json \<Rightarrow> (thrown + jsstring) option" where
  "shape_content_chunks engine data =
     (case content_of data of
        Some (JArr chunks) \<Rightarrow> Some (join_values engine (js ''\<newline>'') (map chunk_text chunks))
      | _ \<Rightarrow> None)"

definition shape_output_blocks :: "(type_error \<Rightarrow> jsstring) \<Rightarrow> json \<Rightarrow> (thrown + jsstring) option" where
  "shape_output_blocks engine data =
     (case output_content_of data of
        Some (JArr chunks) \<Rightarrow> Some (join_values engine (js ''\<newline>'') (map chunk_text chunks))
      | _ \<Rightarrow> None)"

definition shape_output_text_array :: "(type_error \<Rightarrow> jsstring) \<Rightarrow> json \<Rightarrow> (thrown + jsstring) option" where
  "shape_output_text_array engine data =
     (case output_text_of data of
        Some (JArr xs) \<Rightarrow> Some (join_values engine (js ''\<newline>'') xs)
      | _ \<Rightarrow> None)"

definition shape_output_text_string :: "(type_error \<Rightarrow> jsstring) \<Rightarrow> json \<Rightarrow> (thrown + jsstring) option" where
  "shape_output_text_string engine data =
     (case output_text_of data of Some (JStr s) \<Rightarrow> Some (Inr s) | _ \<Rightarrow> None)"

fun first_found :: "('a \<Rightarrow> 'b option) list \<Rightarrow> 'a \<Rightarrow> 'b option" where
  "first_found [] x = None"
| "first_found (f # fs) x = (case f x of Some y \<Rightarrow> Some y | None \<Rightarrow> first_found fs x)"

definition shapes_in_priority_order ::
  "(type_error \<Rightarrow> jsstring) \<Rightarrow> (json \<Rightarrow> (thrown + jsstring) option) list" where
  "shapes_in_priority_order engine =
     [shape_content_string engine, shape_content_chunks engine, shape_output_blocks engine,
      shape_output_text_array engine, shape_output_text_string engine]"

definition first_shape_or_sentinel :: "(type_error \<Rightarrow> jsstring) \<Rightarrow> json \<Rightarrow> thrown + jsstring" where
  "first_shape_or_sentinel engine data =
     (case first_found (shapes_in_priority_order engine) data of
        Some r \<Rightarrow> r
      | None \<Rightarrow> Inr NO_TEXT_MESSAGE)"

text \<open>The request that the proxy sends upstream, before \<open>JSON.stringify\<close> of its body.\<close>

record upstream_request =
  req_url :: jsstring
  req_method :: jsstring
  req_headers :: "(jsstring \<times> jsstring) list"
  req_body :: json

text \<open>What \<open>fetch\<close> resolves to: \<open>response.ok\<close>, \<open>response.status\<close> and what
  \<open>response.json()\<close> settles to.\<close>

record upstream_response =
  resp_ok :: bool
  resp_status :: nat
  resp_json :: "thrown + json"

text \<open>\<open>NextResponse.json(body, { status })\<close>; the status is 200 when none is given.\<close>

record http_response =
  status :: nat
  body :: json

text \<open>
  The surroundings of one request: the variable \<open>GROK_API_KEY\<close> of the environment, the
  upstream service behind \<open>fetch\<close> (\<open>Inl\<close> is a rejected promise) and the engine's messages.
\<close>

record surroundings =
  GROK_API_KEY :: "jsstring option"
  fetch :: "upstream_request \<Rightarrow> thrown + upstream_response"
  engine_message :: "type_error \<Rightarrow> jsstring"

text \<open>\<open>!question?.trim()\<close>\<close>

fun question_blank :: "(type_error \<Rightarrow> jsstring) \<Rightarrow> json option \<Rightarrow> thrown + bool" where
  "question_blank engine None = Inr True"
| "question_blank engine (Some JNull) = Inr True"
| "question_blank engine (Some (JStr q)) = Inr (trim q = [])"
| "question_blank engine (Some _) = Inl (ErrorObj (engine NotAFunction))"

text \<open>The decimal text of a status code.\<close>

fun decimal :: "nat \<Rightarrow> jsstring" where
  "decimal n = (if n < 10 then [of_nat (48 + n)] else decimal (n div 10) @ [of_nat (48 + n mod 10)])"

declare decimal.simps [simp del]

text \<open>The message of the \<open>catch\<close> clause of \<open>POST\<close>.\<close>

definition route_catch_message :: "thrown \<Rightarrow> jsstring" where
  "route_catch_message e =
     (case e of ErrorObj m \<Rightarrow> m
      | OtherValue \<Rightarrow> js ''Unexpected error while calling Grok 4.1.'')"

definition SYSTEM_PROMPT :: jsstring where
  "SYSTEM_PROMPT = js (
     ''You are ChapterPal, an on-device reading coach. Be concise, cite relevant parts '' @
     ''of the provided excerpt, and suggest the next curiosity-driven step when helpful.'')"

text \<open>The argument of \<open>fetch\<close>, given the key, the text of the excerpt and the question.\<close>

definition grok_request :: "jsstring \<Rightarrow> jsstring \<Rightarrow> jsstring \<Rightarrow> upstream_request" where
  "grok_request apiKey excerpt question =
     \<lparr> req_url = js ''https://api.x.ai/v1/chat/completions'',
       req_method = js ''POST'',
       req_headers = [(js ''Content-Type'', js ''application/json''),
                      (js ''Authorization'', js ''Bearer '' @ apiKey)],
       req_body = JObj
         [(js ''model'', JStr (js ''grok-4.1'')),
          (js ''temperature'', JNum (js ''0.25'')),
          (js ''max_output_tokens'', JNum (js ''600'')),
          (js ''messages'', JArr
             [JObj [(js ''role'', JStr (js ''system'')), (js ''content'', JStr SYSTEM_PROMPT)],
              JObj [(js ''role'', JStr (js ''user'')),
                    (js ''content'', JStr (js ''Excerpt:\<newline>'' @ excerpt @
                        js ''\<newline>\<newline>Question: '' @ question))]])] \<rparr>"

text \<open>
  The \<open>try\<close> block of \<open>POST\<close>: the calls made to \<open>fetch\<close> and either the value thrown or the
  answer.
\<close>

definition ask_upstream ::
  "surroundings \<Rightarrow> jsstring \<Rightarrow> json option \<Rightarrow> jsstring \<Rightarrow> upstream_request list \<times> (thrown + jsstring)" where
  "ask_upstream sur apiKey context question =
     (case (if truthy context then toString (engine_message sur) (the context)
            else Inr (js ''No excerpt provided.'')) of
        Inl e \<Rightarrow> ([], Inl e)
      | Inr excerpt \<Rightarrow>
          (let req = grok_request apiKey excerpt question
           in case fetch sur req of
                Inl e \<Rightarrow> ([req], Inl e)
              | Inr response \<Rightarrow>
                  if \<not> resp_ok response then
                    (let errorPayload = (case resp_json response of Inl _ \<Rightarrow> JObj [] | Inr p \<Rightarrow> p)
                     in if errorPayload = JNull
                        then ([req], Inl (ErrorObj (engine_message sur NullProperty)))
                        else
                          (let err = get_field errorPayload (js ''error'')
                           in case (if truthy err then toString (engine_message sur) (the err)
                                    else Inr (js ''Grok API returned HTTP '' @
                                              decimal (resp_status response))) of
                                Inl e \<Rightarrow> ([req], Inl e)
                              | Inr m \<Rightarrow> ([req], Inl (ErrorObj m))))
                  else ([req], normalizeGrokResponse (engine_message sur) (resp_json response))))"

text \<open>
  \<open>POST\<close>, applied to what \<open>request.json()\<close> settles to. The result is the list of calls
  made to \<open>fetch\<close> and the response, or \<open>Inl\<close> when an exception leaves the handler.
\<close>

definition POST ::
  "surroundings \<Rightarrow> thrown + json \<Rightarrow> upstream_request list \<times> (thrown + http_response)" where
  "POST sur request_json =
     (case request_json of
        Inl e \<Rightarrow> ([], Inl e)
      | Inr b \<Rightarrow>
          if b = JNull then ([], Inl (ErrorObj (engine_message sur NullDestructured)))
          else
            (let question = get_field b (js ''question'');
                 context = get_field b (js ''context'')
             in case question_blank (engine_message sur) question of
                  Inl e \<Rightarrow> ([], Inl e)
                | Inr True \<Rightarrow>
                    ([], Inr \<lparr> status = 400,
                              body = JObj [(js ''error'',
                                JStr (js ''Please include a question in your request.''))] \<rparr>)
                | Inr False \<Rightarrow>
                    (let apiKey = GROK_API_KEY sur
                     in if apiKey = None \<or> apiKey = Some []
                        then ([], Inr \<lparr> status = 200,
                                        body = JObj [(js ''answer'', JStr FALLBACK_MESSAGE),
                                                     (js ''offline'', JBool True)] \<rparr>)
                        else
                          (case ask_upstream sur (the apiKey) context
                                  (case question of Some (JStr q) \<Rightarrow> q | _ \<Rightarrow> []) of
                             (calls, Inr answer) \<Rightarrow>
                               (calls, Inr \<lparr> status = 200,
                                             body = JObj [(js ''answer'', JStr answer)] \<rparr>)
                           | (calls, Inl e) \<Rightarrow>
                               (calls, Inr \<lparr> status = 500,
                                             body = JObj [(js ''error'',
                                               JStr (route_catch_message e))] \<rparr>)))))"

section \<open>Properties of the segmenter\<close>

lemma terminator_not_ws: "isTerminator c \<Longrightarrow> \<not> isWhiteSpace c"
  by (auto simp: isTerminator_def isWhiteSpace_def)

lemma trim_visible:
  assumes "\<exists>c\<in>set m. \<not> isWhiteSpace c"
  shows "trim m \<noteq> [] \<and> \<not> isWhiteSpace (hd (trim m)) \<and> \<not> isWhiteSpace (last (trim m))"
proof -
  let ?a = "dropWhile isWhiteSpace m"
  let ?b = "dropWhile isWhiteSpace (rev ?a)"
  from assms have a: "?a \<noteq> []" by (simp add: dropWhile_eq_Nil_conv)
  then have ha: "\<not> isWhiteSpace (hd ?a)" using hd_dropWhile by blast
  from a ha have "\<exists>c\<in>set (rev ?a). \<not> isWhiteSpace c"
    by (metis hd_in_set set_rev)
  then have b: "?b \<noteq> []" by (simp add: dropWhile_eq_Nil_conv)
  then have hb: "\<not> isWhiteSpace (hd ?b)" using hd_dropWhile by blast
  have "\<exists>xs. rev ?a = xs @ ?b" by (metis takeWhile_dropWhile_id)
  then obtain xs where "rev ?a = xs @ ?b" by blast
  then have "?a = rev ?b @ rev xs" by (metis rev_append rev_rev_ident)
  moreover from b have "rev ?b \<noteq> []" by simp
  ultimately have "hd (rev ?b) = hd ?a" by (metis hd_append2)
  with ha have "\<not> isWhiteSpace (hd (rev ?b))" by simp
  moreover from hb b have "\<not> isWhiteSpace (last (rev ?b))" by (simp add: last_rev)
  moreover have "trim m = rev ?b" by (simp only: trim_def)
  ultimately show ?thesis using \<open>rev ?b \<noteq> []\<close> by simp
qed

lemma trim_ends:
  "trim m = [] \<or> (\<not> isWhiteSpace (hd (trim m)) \<and> \<not> isWhiteSpace (last (trim m)))"
proof (cases "\<exists>c\<in>set m. \<not> isWhiteSpace c")
  case True
  then show ?thesis using trim_visible by blast
next
  case False
  then have "dropWhile isWhiteSpace m = []" by (simp add: dropWhile_eq_Nil_conv)
  then have "trim m = []" by (metis trim_def dropWhile.simps(1) rev.simps(1))
  then show ?thesis by simp
qed

lemma last_dropWhile: "dropWhile P xs \<noteq> [] \<Longrightarrow> last (dropWhile P xs) = last xs"
  by (induction xs) (auto split: if_splits)

lemma sentence_runs_none:
  "dropWhile isTerminator s = [] \<Longrightarrow> sentence_runs s = []"
  by (subst sentence_runs.simps[of s]) (simp only: Let_def if_False if_True simp_thms)

lemma sentence_runs_Nil: "sentence_runs [] = []"
  by (rule sentence_runs_none) simp

lemma sentence_runs_tail:
  "dropWhile isTerminator s \<noteq> [] \<Longrightarrow>
   dropWhile (\<lambda>c. \<not> isTerminator c) (dropWhile isTerminator s) = [] \<Longrightarrow>
   sentence_runs s = [takeWhile (\<lambda>c. \<not> isTerminator c) (dropWhile isTerminator s)]"
  by (subst sentence_runs.simps[of s]) (simp only: Let_def if_False if_True simp_thms)

lemma sentence_runs_more:
  "dropWhile isTerminator s \<noteq> [] \<Longrightarrow>
   dropWhile (\<lambda>c. \<not> isTerminator c) (dropWhile isTerminator s) \<noteq> [] \<Longrightarrow>
   sentence_runs s =
     (takeWhile (\<lambda>c. \<not> isTerminator c) (dropWhile isTerminator s) @
      takeWhile isTerminator (dropWhile (\<lambda>c. \<not> isTerminator c) (dropWhile isTerminator s)))
     # sentence_runs
         (dropWhile isTerminator (dropWhile (\<lambda>c. \<not> isTerminator c) (dropWhile isTerminator s)))"
  by (subst sentence_runs.simps[of s]) (simp only: Let_def if_False if_True simp_thms)

lemma sentence_runs_visible:
  "m \<in> set (sentence_runs s) \<Longrightarrow> m \<noteq> [] \<and> (isTerminator (last m) \<or> last m = last s)"
proof (induction s arbitrary: m rule: sentence_runs.induct)
  case (1 s)
  let ?s1 = "dropWhile isTerminator s"
  let ?body = "takeWhile (\<lambda>c. \<not> isTerminator c) ?s1"
  let ?rest = "dropWhile (\<lambda>c. \<not> isTerminator c) ?s1"
  have s1: "?s1 \<noteq> []"
  proof
    assume "?s1 = []"
    then have "sentence_runs s = []" by (rule sentence_runs_none)
    with "1.prems" show False by simp
  qed
  then have "\<not> isTerminator (hd ?s1)" by (rule hd_dropWhile)
  with s1 have body: "?body \<noteq> []" by (cases ?s1) simp_all
  show ?case
  proof (cases "?rest = []")
    case True
    have "sentence_runs s = [?body]" using s1 True by (rule sentence_runs_tail)
    with "1.prems" have m: "m = ?body" by simp
    have "?body @ ?rest = ?s1" by (rule takeWhile_dropWhile_id)
    with True have b: "?body = ?s1" by simp
    have "last ?s1 = last s" using s1 by (rule last_dropWhile)
    then have "last m = last s" by (simp only: m b)
    moreover have "m \<noteq> []" using s1 by (simp only: m b not_False_eq_True)
    ultimately show ?thesis by blast
  next
    case False
    then have "\<not> \<not> isTerminator (hd ?rest)" by (rule hd_dropWhile)
    with False have tw: "takeWhile isTerminator ?rest \<noteq> []" by (cases ?rest) simp_all
    have "sentence_runs s =
        (?body @ takeWhile isTerminator ?rest) # sentence_runs (dropWhile isTerminator ?rest)"
      using s1 False by (rule sentence_runs_more)
    with "1.prems" consider
      (a) "m = ?body @ takeWhile isTerminator ?rest"
      | (b) "m \<in> set (sentence_runs (dropWhile isTerminator ?rest))"
      by auto
    then show ?thesis
    proof cases
      case a
      have "last (takeWhile isTerminator ?rest) \<in> set (takeWhile isTerminator ?rest)"
        using tw by (rule last_in_set)
      then have "isTerminator (last (takeWhile isTerminator ?rest))"
        by (rule set_takeWhileD[THEN conjunct2])
      moreover from tw have "last (?body @ takeWhile isTerminator ?rest) =
          last (takeWhile isTerminator ?rest)"
        by (rule last_appendR)
      ultimately have "isTerminator (last m)" by (simp only: a)
      moreover from tw have "m \<noteq> []" by (simp only: a append_is_Nil_conv simp_thms)
      ultimately show ?thesis by blast
    next
      case b
      let ?s' = "dropWhile isTerminator ?rest"
      have ne: "?s' \<noteq> []"
      proof
        assume e: "?s' = []"
        from b have "m \<in> set (sentence_runs [])" by (simp only: e)
        then show False by (simp only: sentence_runs_Nil list.set empty_iff)
      qed
      from "1.IH"[OF refl s1 refl refl False b]
      have "m \<noteq> [] \<and> (isTerminator (last m) \<or> last m = last ?s')" .
      moreover have "last ?s' = last ?rest" using ne by (rule last_dropWhile)
      moreover have "last ?rest = last ?s1" using False by (rule last_dropWhile)
      moreover have "last ?s1 = last s" using s1 by (rule last_dropWhile)
      ultimately show ?thesis by simp
    qed
  qed
qed

lemma sentence_runs_empty_iff:
  "sentence_runs t = [] \<longleftrightarrow> (\<forall>c\<in>set t. isTerminator c)"
proof (cases "dropWhile isTerminator t = []")
  case True
  then have "sentence_runs t = []" by (rule sentence_runs_none)
  moreover from True have "\<forall>c\<in>set t. isTerminator c" by (simp only: dropWhile_eq_Nil_conv)
  ultimately show ?thesis by blast
next
  case False
  then have n: "\<not> (\<forall>c\<in>set t. isTerminator c)"
    by (simp only: dropWhile_eq_Nil_conv not_False_eq_True)
  have "sentence_runs t \<noteq> []"
  proof (cases "dropWhile (\<lambda>c. \<not> isTerminator c) (dropWhile isTerminator t) = []")
    case True
    with False show ?thesis by (simp only: sentence_runs_tail list.distinct not_False_eq_True)
  next
    case False
    with \<open>dropWhile isTerminator t \<noteq> []\<close> show ?thesis
      by (simp only: sentence_runs_more list.distinct not_False_eq_True)
  qed
  with n show ?thesis by blast
qed

subsection \<open>The matcher and the runs agree\<close>

lemma plus_ends_none: "s = [] \<or> \<not> P (hd s) \<Longrightarrow> plus_ends P s = []"
  by (cases s) auto

lemma plus_ends_first:
  "s \<noteq> [] \<Longrightarrow> P (hd s) \<Longrightarrow> \<exists>xs. plus_ends P s = dropWhile P s # xs"
proof (induction s)
  case Nil
  then show ?case by simp
next
  case (Cons c cs)
  then have c: "P c" by simp
  show ?case
  proof (cases "cs = [] \<or> \<not> P (hd cs)")
    case True
    then have "plus_ends P cs = []" by (rule plus_ends_none)
    moreover from True have "dropWhile P cs = cs" by (cases cs) auto
    ultimately show ?thesis using c by simp
  next
    case False
    with Cons.IH obtain xs where "plus_ends P cs = dropWhile P cs # xs" by blast
    with c show ?thesis by simp
  qed
qed

lemma plus_ends_suffix: "x \<in> set (plus_ends P s) \<Longrightarrow> set x \<subseteq> set s"
proof (induction s)
  case Nil
  then show ?case by simp
next
  case (Cons c cs)
  then show ?case by (auto split: if_splits)
qed

lemma exec_at_sentence_none:
  assumes "s = [] \<or> isTerminator (hd s)"
  shows "exec_at SENTENCE s = None"
proof -
  from assms have "plus_ends (\<lambda>c. \<not> isTerminator c) s = []"
    by (intro plus_ends_none) simp
  then show ?thesis by (simp add: exec_at_def SENTENCE_def)
qed

lemma take_length_suffix: "take (length (p @ q) - length q) (p @ q) = p"
  by simp

lemma exec_at_sentence_more:
  assumes "s \<noteq> []" and "\<not> isTerminator (hd s)"
    and "dropWhile (\<lambda>c. \<not> isTerminator c) s \<noteq> []"
  shows "exec_at SENTENCE s =
     Some (takeWhile (\<lambda>c. \<not> isTerminator c) s @
             takeWhile isTerminator (dropWhile (\<lambda>c. \<not> isTerminator c) s),
           dropWhile isTerminator (dropWhile (\<lambda>c. \<not> isTerminator c) s))"
proof -
  let ?rest = "dropWhile (\<lambda>c. \<not> isTerminator c) s"
  let ?body = "takeWhile (\<lambda>c. \<not> isTerminator c) s"
  from assms(1,2) obtain xs where a: "plus_ends (\<lambda>c. \<not> isTerminator c) s = ?rest # xs"
    using plus_ends_first[of s "\<lambda>c. \<not> isTerminator c"] by blast
  from assms(3) have "\<not> \<not> isTerminator (hd ?rest)" by (rule hd_dropWhile)
  with assms(3) obtain ys where b: "plus_ends isTerminator ?rest = dropWhile isTerminator ?rest # ys"
    using plus_ends_first[of ?rest isTerminator] by blast
  have s: "s = (?body @ takeWhile isTerminator ?rest) @ dropWhile isTerminator ?rest"
    by simp
  have "take (length s - length (dropWhile isTerminator ?rest)) s =
      ?body @ takeWhile isTerminator ?rest"
    using take_length_suffix[of "?body @ takeWhile isTerminator ?rest"
        "dropWhile isTerminator ?rest"] s by simp
  then show ?thesis by (simp add: exec_at_def SENTENCE_def a b)
qed

lemma exec_at_sentence_tail:
  assumes "s \<noteq> []" and "\<not> isTerminator (hd s)"
    and "dropWhile (\<lambda>c. \<not> isTerminator c) s = []"
  shows "exec_at SENTENCE s = Some (s, [])"
proof -
  from assms(1,2) obtain xs where a: "plus_ends (\<lambda>c. \<not> isTerminator c) s = [] # xs"
    using plus_ends_first[of s "\<lambda>c. \<not> isTerminator c"] assms(3) by auto
  from assms(3) have all: "\<forall>c\<in>set s. \<not> isTerminator c"
    by (simp only: dropWhile_eq_Nil_conv)
  have "plus_ends isTerminator x = []" if "x \<in> set (plus_ends (\<lambda>c. \<not> isTerminator c) s)" for x
  proof -
    from that have "set x \<subseteq> set s" by (rule plus_ends_suffix)
    with all have "x = [] \<or> \<not> isTerminator (hd x)" by (cases x) auto
    then show ?thesis by (rule plus_ends_none)
  qed
  then have "concat (map (plus_ends isTerminator) (plus_ends (\<lambda>c. \<not> isTerminator c) s)) = []"
    by simp
  then have "ends SENTENCE s = [] # concat (map (ends EndOfInput) xs)"
    by (simp add: SENTENCE_def a)
  then show ?thesis by (simp add: exec_at_def)
qed

lemma match_all_sentence_skip:
  "match_all SENTENCE s = match_all SENTENCE (dropWhile isTerminator s)"
proof (induction s)
  case Nil
  show ?case by simp
next
  case (Cons c cs)
  show ?case
  proof (cases "isTerminator c")
    case True
    then have "exec_at SENTENCE (c # cs) = None" by (intro exec_at_sentence_none) simp
    then have "match_all SENTENCE (c # cs) = match_all SENTENCE cs"
      by (subst match_all.simps) simp
    with True Cons show ?thesis by simp
  next
    case False
    then show ?thesis by simp
  qed
qed

lemma match_all_sentence_Nil: "match_all SENTENCE [] = []"
  by (subst match_all.simps) (simp add: exec_at_sentence_none)

lemma match_all_whole:
  "exec_at r x = Some (x, []) \<Longrightarrow> x \<noteq> [] \<Longrightarrow> match_all r [] = [] \<Longrightarrow> match_all r x = [x]"
  by (subst match_all.simps) simp

lemma match_all_step:
  "exec_at r x = Some (m, rest) \<Longrightarrow> m \<noteq> [] \<Longrightarrow> match_all r x = m # match_all r rest"
  by (subst match_all.simps) simp

lemma match_all_sentence_runs: "match_all SENTENCE s = sentence_runs s"
proof (induction s rule: sentence_runs.induct)
  case (1 s)
  let ?s1 = "dropWhile isTerminator s"
  let ?body = "takeWhile (\<lambda>c. \<not> isTerminator c) ?s1"
  let ?rest = "dropWhile (\<lambda>c. \<not> isTerminator c) ?s1"
  have skip: "match_all SENTENCE s = match_all SENTENCE ?s1" by (rule match_all_sentence_skip)
  show ?case
  proof (cases "?s1 = []")
    case True
    then have "sentence_runs s = []" by (rule sentence_runs_none)
    moreover from True have "match_all SENTENCE ?s1 = []" by (simp only: match_all_sentence_Nil)
    ultimately show ?thesis using skip by simp
  next
    case s1: False
    then have h: "\<not> isTerminator (hd ?s1)" by (rule hd_dropWhile)
    show ?thesis
    proof (cases "?rest = []")
      case True
      have "?body @ ?rest = ?s1" by (rule takeWhile_dropWhile_id)
      with True have b: "?body = ?s1" by simp
      have "exec_at SENTENCE ?s1 = Some (?s1, [])"
        using s1 h True by (rule exec_at_sentence_tail)
      then have "match_all SENTENCE ?s1 = [?s1]"
        using s1 match_all_sentence_Nil by (rule match_all_whole)
      moreover have "sentence_runs s = [?body]" using s1 True by (rule sentence_runs_tail)
      ultimately show ?thesis using skip b by simp
    next
      case False
      have e: "exec_at SENTENCE ?s1 =
          Some (?body @ takeWhile isTerminator ?rest, dropWhile isTerminator ?rest)"
        using s1 h False by (rule exec_at_sentence_more)
      from s1 h have "?body \<noteq> []" by (cases ?s1) simp_all
      then have ne: "?body @ takeWhile isTerminator ?rest \<noteq> []" by simp
      have "match_all SENTENCE ?s1 =
          (?body @ takeWhile isTerminator ?rest) # match_all SENTENCE (dropWhile isTerminator ?rest)"
        using e ne by (rule match_all_step)
      moreover have "sentence_runs s =
          (?body @ takeWhile isTerminator ?rest) # sentence_runs (dropWhile isTerminator ?rest)"
        using s1 False by (rule sentence_runs_more)
      moreover have "match_all SENTENCE (dropWhile isTerminator ?rest) =
          sentence_runs (dropWhile isTerminator ?rest)"
        using "1.IH"[OF refl s1 refl refl False] .
      ultimately show ?thesis using skip by simp
    qed
  qed
qed

lemma replace_all_whitespace_runs: "replace_all WHITESPACE_RUN (js '' '') s = collapse_runs s"
proof (induction s rule: collapse_runs.induct)
  case 1
  have "exec_at WHITESPACE_RUN [] = None" by (simp add: exec_at_def WHITESPACE_RUN_def)
  then show ?case by (subst replace_all.simps) simp
next
  case (2 c cs)
  show ?case
  proof (cases "isWhiteSpace c")
    case True
    then obtain xs where "plus_ends isWhiteSpace (c # cs) = dropWhile isWhiteSpace (c # cs) # xs"
      using plus_ends_first[of "c # cs" isWhiteSpace] by auto
    with True have p: "plus_ends isWhiteSpace (c # cs) = dropWhile isWhiteSpace cs # xs" by simp
    have "length (dropWhile isWhiteSpace cs) \<le> length cs" by (rule length_dropWhile_le)
    then have "take (length (c # cs) - length (dropWhile isWhiteSpace cs)) (c # cs) \<noteq> []"
      by (simp add: Suc_diff_le)
    with p have "replace_all WHITESPACE_RUN (js '' '') (c # cs) =
        js '' '' @ replace_all WHITESPACE_RUN (js '' '') (dropWhile isWhiteSpace cs)"
      by (subst replace_all.simps) (simp add: exec_at_def WHITESPACE_RUN_def)
    with True "2.IH"(1) show ?thesis by (simp add: js_def)
  next
    case False
    then have "exec_at WHITESPACE_RUN (c # cs) = None"
      by (simp add: exec_at_def WHITESPACE_RUN_def)
    then have "replace_all WHITESPACE_RUN (js '' '') (c # cs) =
        c # replace_all WHITESPACE_RUN (js '' '') cs"
      by (subst replace_all.simps) simp
    with False "2.IH"(2) show ?thesis by simp
  qed
qed

lemma replace_ws_runs: "replace_ws s = collapse_runs s"
  by (simp only: replace_ws_def replace_all_whitespace_runs)

subsection \<open>Sentences\<close>

lemma match_g_Some: "match_g t = Some ms \<Longrightarrow> ms = sentence_runs t"
  by (auto simp: match_g_def match_all_sentence_runs split: list.splits)

lemma match_g_None: "match_g t = None \<longleftrightarrow> sentence_runs t = []"
  by (auto simp: match_g_def match_all_sentence_runs split: list.splits)

lemma splitIntoSentences_eq:
  "splitIntoSentences raw = map trim (sentence_runs (trim (replace_ws raw)))"
  by (auto simp: splitIntoSentences_def match_g_def match_all_sentence_runs split: list.splits)

lemma sentence_visible:
  assumes "x \<in> set (splitIntoSentences raw)"
  shows "x \<noteq> [] \<and> \<not> isWhiteSpace (hd x) \<and> \<not> isWhiteSpace (last x)"
proof -
  let ?t = "trim (replace_ws raw)"
  from assms obtain m where m: "m \<in> set (sentence_runs ?t)" and x: "x = trim m"
    by (auto simp: splitIntoSentences_eq)
  from m have ne: "m \<noteq> []" and l: "isTerminator (last m) \<or> last m = last ?t"
    using sentence_runs_visible by blast+
  from m have "?t \<noteq> []" using sentence_runs_Nil by fastforce
  then have "\<not> isWhiteSpace (last ?t)" using trim_ends[of "replace_ws raw"] by blast
  with l have "\<not> isWhiteSpace (last m)" using terminator_not_ws by metis
  moreover from ne have "last m \<in> set m" by (rule last_in_set)
  ultimately have "\<exists>c\<in>set m. \<not> isWhiteSpace c" by blast
  then show ?thesis unfolding x by (rule trim_visible)
qed

text \<open>
  C3. For every input string, every sentence that \<open>splitIntoSentences\<close> returns is non-empty
  and has no white space at its start or at its end. The result is the empty sequence, not a
  failure, exactly when the text has no sentence-like substring, that is, when the
  normalised text holds nothing but the terminators \<open>.\<close>, \<open>!\<close> and \<open>?\<close>.
\<close>

theorem segmenter_sentences_trimmed_nonempty:
  "(\<forall>x\<in>set (splitIntoSentences raw).
      x \<noteq> [] \<and> \<not> isWhiteSpace (hd x) \<and> \<not> isWhiteSpace (last x)) \<and>
   (splitIntoSentences raw = [] \<longleftrightarrow> (\<forall>c\<in>set (trim (replace_ws raw)). isTerminator c))"
proof
  show "\<forall>x\<in>set (splitIntoSentences raw).
      x \<noteq> [] \<and> \<not> isWhiteSpace (hd x) \<and> \<not> isWhiteSpace (last x)"
    using sentence_visible by blast
  show "splitIntoSentences raw = [] \<longleftrightarrow> (\<forall>c\<in>set (trim (replace_ws raw)). isTerminator c)"
    by (simp only: splitIntoSentences_eq map_is_Nil_conv sentence_runs_empty_iff)
qed

text \<open>
  The equations that evaluate the string functions on a literal: the two global
  expressions through their runs, where the three conditional equations of
  \<open>sentence_runs\<close> unfold it only where the text is known, and the expression of the file
  extension through the matcher.
\<close>

lemmas eval_strings = js_def trim_def isWhiteSpace_def isTerminator_def match_g_def
  match_all_sentence_runs replace_ws_runs sentence_runs_none sentence_runs_tail
  sentence_runs_more splitIntoSentences_def Let_def

lemmas eval_extension = strip_extension_def exec_at_def EXTENSION_def

text \<open>The theorem at a text of three sentences and at a text of terminators only.\<close>

theorem segmenter_sentences_trimmed_nonempty_witness:
  "splitIntoSentences (js ''  Hello world.  How are you? Fine'') =
     [js ''Hello world.'', js ''How are you?'', js ''Fine''] \<and>
   js ''How are you?'' \<noteq> [] \<and>
   \<not> isWhiteSpace (hd (js ''How are you?'')) \<and>
   \<not> isWhiteSpace (last (js ''How are you?'')) \<and>
   trim (replace_ws (js '' ?!. '')) = js ''?!.'' \<and>
   splitIntoSentences (js '' ?!. '') = []"
proof -
  have a: "splitIntoSentences (js ''  Hello world.  How are you? Fine'') =
     [js ''Hello world.'', js ''How are you?'', js ''Fine'']"
    by (simp add: eval_strings)
  have b: "trim (replace_ws (js '' ?!. '')) = js ''?!.''"
    by (simp add: eval_strings)
  have c: "\<forall>c\<in>set (js ''?!.''). isTerminator c"
    by (simp add: js_def isTerminator_def)
  from segmenter_sentences_trimmed_nonempty[of "js ''  Hello world.  How are you? Fine''"]
  have "js ''How are you?'' \<noteq> [] \<and> \<not> isWhiteSpace (hd (js ''How are you?'')) \<and>
      \<not> isWhiteSpace (last (js ''How are you?''))"
    by (simp only: a list.set ball_simps insert_iff simp_thms)
  moreover from segmenter_sentences_trimmed_nonempty[of "js '' ?!. ''"] c
  have "splitIntoSentences (js '' ?!. '') = []"
    by (simp only: b simp_thms)
  ultimately show ?thesis using a b by simp
qed

text \<open>
  The startup document, evaluated through the matcher: it has eight sentences, the point of
  \<open>4.1\<close> ending the seventh.
\<close>

lemma default_excerpt_sentences:
  "splitIntoSentences DEFAULT_EXCERPT =
     [js ''Reasoning Language Models: A Blueprint examines how we build agents that think.'',
      js ''Progress in reasoning requires quiet focus.'',
      js (''Reading everything at once is overwhelming, so ChapterPal only reveals one '' @
          ''sentence at a time.''),
      js ''Pause, inspect, question, and only then move forward.'',
      js ''Double-tap the right edge to reveal new sentences.'',
      js ''Double-tap the left edge when you want to rewind and reconsider.'',
      js ''Ask Grok 4.'',
      js ''1 anything along the way and tap outside the Q&A to fall back into the main text.'']"
  by code_simp

section \<open>Properties of the reading view\<close>



lemma trim_Cons_visible:
  assumes "\<not> isWhiteSpace c"
  shows "\<exists>ys. trim (c # xs) = c # ys"
proof -
  have "\<exists>zs. dropWhile isWhiteSpace (rev xs @ [c]) = zs @ [c]"
    using assms by (simp add: dropWhile_append)
  then obtain zs where "dropWhile isWhiteSpace (rev xs @ [c]) = zs @ [c]" by blast
  with assms have "trim (c # xs) = c # rev zs" by (simp add: trim_def)
  then show ?thesis by blast
qed

lemma splitIntoSentences_starts_visible:
  assumes "\<not> isWhiteSpace c" and "\<not> isTerminator c"
  shows "splitIntoSentences (c # cs) \<noteq> []"
proof -
  from assms(1) have "replace_ws (c # cs) = c # replace_ws cs" by (simp add: replace_ws_runs)
  moreover from assms(1) obtain ys where "trim (c # replace_ws cs) = c # ys"
    using trim_Cons_visible by blast
  ultimately have "c \<in> set (trim (replace_ws (c # cs)))" by simp
  with assms(2) have "\<not> (\<forall>x\<in>set (trim (replace_ws (c # cs))). isTerminator x)" by blast
  then show ?thesis
    by (simp only: splitIntoSentences_eq map_is_Nil_conv sentence_runs_empty_iff
        not_False_eq_True)
qed

lemma default_excerpt_has_sentences: "splitIntoSentences DEFAULT_EXCERPT \<noteq> []"
proof -
  obtain cs where "DEFAULT_EXCERPT = 0x52 # cs"
    by (simp add: DEFAULT_EXCERPT_def js_def)
  moreover have "\<not> isWhiteSpace 0x52" and "\<not> isTerminator 0x52"
    by (simp_all add: isWhiteSpace_def isTerminator_def)
  ultimately show ?thesis using splitIntoSentences_starts_visible by metis
qed

lemma ingest_Inr:
  assumes "ingest f = Inr (ss, m)"
  shows "\<exists>raw. extractText f = Inr raw \<and>
           ss = take MAX_SENTENCES (splitIntoSentences (trim (replace_ws raw))) \<and>
           ss \<noteq> [] \<and>
           sentences_count m = length ss \<and>
           filename m = Some (file_name f) \<and>
           truncated m = Some (MAX_SENTENCES \<le> length ss)"
  using assms by (auto simp: ingest_def Let_def split: sum.splits if_splits)

lemma ingest_Inl:
  assumes "ingest f = Inl e"
  shows "extractText f = Inl e \<or>
         (\<exists>raw. extractText f = Inr raw \<and>
            take MAX_SENTENCES (splitIntoSentences (trim (replace_ws raw))) = [] \<and>
            e = ErrorObj NO_SENTENCES_MESSAGE)"
  using assms by (auto simp: ingest_def Let_def split: sum.splits if_splits)

text \<open>
  What every step keeps: at least one sentence in the cell, and a cursor of at least 1. No
  step but the settlement of an upload writes the sentences; a reveal only raises the
  cursor and an unreveal stops at 1.
\<close>

lemma floor_handleReveal:
  "sentences s \<noteq> [] \<and> 1 \<le> revealed s \<Longrightarrow>
   sentences (handleReveal s) \<noteq> [] \<and> 1 \<le> revealed (handleReveal s)"
  by (simp add: handleReveal_def)

lemma floor_handleUnreveal:
  "sentences s \<noteq> [] \<and> 1 \<le> revealed s \<Longrightarrow>
   sentences (handleUnreveal s) \<noteq> [] \<and> 1 \<le> revealed (handleUnreveal s)"
  by (simp add: handleUnreveal_def)

lemma floor_handleTouch:
  assumes "sentences s \<noteq> [] \<and> 1 \<le> revealed s"
  shows "sentences (snd (handleTouch sd now s)) \<noteq> [] \<and> 1 \<le> revealed (snd (handleTouch sd now s))"
  using assms floor_handleReveal[of s] floor_handleUnreveal[of s]
  by (simp add: handleTouch_def Let_def run_command_def)

lemma floor_settle:
  assumes "sentences s \<noteq> [] \<and> 1 \<le> revealed s"
  shows "sentences (handleFileChange_settle f s) \<noteq> [] \<and>
         1 \<le> revealed (handleFileChange_settle f s)"
proof (cases "ingest f")
  case (Inl e)
  with assms show ?thesis by (simp add: handleFileChange_settle_def)
next
  case (Inr r)
  obtain ss m where r: "r = (ss, m)" by (cases r)
  with Inr have "ss \<noteq> []" using ingest_Inr by blast
  with Inr r show ?thesis by (simp add: handleFileChange_settle_def)
qed

lemma floor_step:
  assumes "sentences s \<noteq> [] \<and> 1 \<le> revealed s"
  shows "sentences (step e s) \<noteq> [] \<and> 1 \<le> revealed (step e s)"
proof (cases e)
  case (DoubleClick sd)
  with assms show ?thesis
    using floor_handleReveal[of s] floor_handleUnreveal[of s] by (cases sd) simp_all
next
  case (TouchEnd sd now)
  with assms show ?thesis using floor_handleTouch by simp
next
  case (FileChosen fo)
  with assms show ?thesis by (cases fo) (simp_all add: handleFileChange_begin_def)
next
  case (FileSettled f)
  with assms show ?thesis using floor_settle by simp
next
  case Rerender
  with assms show ?thesis by simp
qed

lemma floor_initial: "sentences initial_state \<noteq> [] \<and> 1 \<le> revealed initial_state"
  using default_excerpt_has_sentences by (simp add: initial_state_def)

lemma reachable_floor: "reachable s \<Longrightarrow> sentences s \<noteq> [] \<and> 1 \<le> revealed s"
proof (induction rule: reachable.induct)
  case reachable_init
  show ?case by (rule floor_initial)
next
  case (reachable_step s e)
  from reachable_step.IH show ?case by (rule floor_step)
qed

text \<open>
  With handlers that hold the sentences of the cell, a reveal and an unreveal keep the
  cursor within the document.
\<close>

lemma cursor_bounds_rendered:
  assumes "rendered_sentences s = sentences s"
    and "1 \<le> revealed s \<and> revealed s \<le> int (length (sentences s))"
  shows "1 \<le> revealed (handleReveal s) \<and>
         revealed (handleReveal s) \<le> int (length (sentences (handleReveal s))) \<and>
         1 \<le> revealed (handleUnreveal s) \<and>
         revealed (handleUnreveal s) \<le> int (length (sentences (handleUnreveal s)))"
  using assms by (simp add: handleReveal_def handleUnreveal_def)

lemma settle_success:
  assumes "ingest f = Inr (ss, m)"
  shows "handleFileChange_settle f s =
           s\<lparr>sentences := ss, revealed := 1, documentMeta := m, isParsing := False\<rparr>"
  using assms by (simp add: handleFileChange_settle_def)

lemma settle_failure:
  assumes "ingest f = Inl e"
  shows "handleFileChange_settle f s = s\<lparr>uploadError := Some (catch_message e), isParsing := False\<rparr>"
  using assms by (simp add: handleFileChange_settle_def)

lemma hello_file_ingest:
  "ingest hello_file =
     Inr ([js ''Hello world.'', js ''How are you?'', js ''Fine!''],
          \<lparr> title = js ''hello'', byline = js ''31 B '' @ [0xB7] @ js '' text/plain'',
            sentences_count = 3, filename = Some (js ''hello.txt''), truncated = Some False \<rparr>)"
  by (simp add: ingest_def extractText_def hello_file_def ends_with_pdf_def MAX_SENTENCES_def
      eval_strings eval_extension)

lemma one_sentence_file_ingest:
  "ingest one_sentence_file =
     Inr ([js ''Hi.''],
          \<lparr> title = js ''one'', byline = js ''3 B '' @ [0xB7] @ js '' text/plain'',
            sentences_count = 1, filename = Some (js ''one.txt''), truncated = Some False \<rparr>)"
  by (simp add: ingest_def extractText_def one_sentence_file_def ends_with_pdf_def
      MAX_SENTENCES_def eval_strings eval_extension)

lemma default_excerpt_length: "length (splitIntoSentences DEFAULT_EXCERPT) = 8"
  by (simp only: default_excerpt_sentences list.size)

lemma ingestion_resets_cursor:
  "ingest f = Inr (ss, m) \<Longrightarrow>
   revealed (handleFileChange (Some f) s) = 1 \<and> revealed (handleFileChange_settle f s) = 1"
  by (simp add: handleFileChange_def settle_success)

text \<open>
  C2. The bound \<open>revealed \<le> length sentences\<close> does not hold in every reachable state. On
  the startup view of eight sentences an upload of one sentence settles, which sets the
  sentences and the cursor 1, and a double click on the right half arrives before React
  has rendered again: the handler of the last render still compares with the eight
  sentences it holds and raises the cursor to 2, past the one sentence of the document. A
  render afterwards leaves the cursor where it is.
\<close>

theorem stale_reveal_passes_last_sentence:
  "reachable (step (DoubleClick Right) (step (FileSettled one_sentence_file) initial_state)) \<and>
   sentences (step (DoubleClick Right) (step (FileSettled one_sentence_file) initial_state)) =
     [js ''Hi.''] \<and>
   revealed (step (FileSettled one_sentence_file) initial_state) = 1 \<and>
   revealed (step (DoubleClick Right) (step (FileSettled one_sentence_file) initial_state)) = 2 \<and>
   \<not> revealed (step (DoubleClick Right) (step (FileSettled one_sentence_file) initial_state))
       \<le> int (length (sentences
             (step (DoubleClick Right) (step (FileSettled one_sentence_file) initial_state)))) \<and>
   revealed (step Rerender
     (step (DoubleClick Right) (step (FileSettled one_sentence_file) initial_state))) = 2"
proof -
  let ?s1 = "step (FileSettled one_sentence_file) initial_state"
  let ?s2 = "step (DoubleClick Right) ?s1"
  have r: "reachable ?s2"
    by (intro reachable_step reachable_init)
  have s1: "revealed ?s1 = 1"
    by (simp add: settle_success[OF one_sentence_file_ingest])
  have s2: "sentences ?s2 = [js ''Hi.'']" "revealed ?s2 = 2"
    by (simp_all add: settle_success[OF one_sentence_file_ingest] handleReveal_def
        initial_state_def default_excerpt_length)
  have s3: "revealed (step Rerender ?s2) = 2"
    by (simp add: settle_success[OF one_sentence_file_ingest] handleReveal_def
        initial_state_def default_excerpt_length)
  have "\<not> revealed ?s2 \<le> int (length (sentences ?s2))"
    by (simp only: s2) simp
  with r s1 s2 s3 show ?thesis by blast
qed

lemma blank_file_ingest: "ingest blank_file = Inl (ErrorObj NO_SENTENCES_MESSAGE)"
  by (simp add: ingest_def extractText_def blank_file_def ends_with_pdf_def MAX_SENTENCES_def
      eval_strings)


text \<open>
  C10. In every reachable state of the reading view the sentence sequence is non-empty and
  the cursor is at least 1, so the empty state of a document without sentences is never
  reached: the startup document has a sentence, and an ingestion that succeeds delivers at
  least one.
\<close>

theorem sentences_never_empty:
  "(reachable s \<longrightarrow> sentences s \<noteq> [] \<and> 1 \<le> revealed s \<and> revealed s \<noteq> 0) \<and>
   sentences initial_state \<noteq> [] \<and>
   (ingest f = Inr (ss, m) \<longrightarrow> ss \<noteq> [])"
proof (intro conjI impI)
  assume r: "reachable s"
  then have b: "sentences s \<noteq> [] \<and> 1 \<le> revealed s"
    by (rule reachable_floor)
  then show "1 \<le> revealed s" and "revealed s \<noteq> 0" and "sentences s \<noteq> []" by simp_all
next
  show "sentences initial_state \<noteq> []"
    using default_excerpt_has_sentences by (simp add: initial_state_def)
next
  assume "ingest f = Inr (ss, m)"
  then show "ss \<noteq> []" using ingest_Inr by blast
qed

text \<open>
  The theorem at the state reached when an upload without a sentence settles on the initial
  view (the startup document stays), and at the ingestion of \<open>hello.txt\<close>.
\<close>

theorem sentences_never_empty_witness:
  "reachable (step (FileSettled blank_file) initial_state) \<and>
   sentences (step (FileSettled blank_file) initial_state) = sentences initial_state \<and>
   sentences (step (FileSettled blank_file) initial_state) \<noteq> [] \<and>
   revealed (step (FileSettled blank_file) initial_state) = 1 \<and>
   ingest hello_file =
     Inr ([js ''Hello world.'', js ''How are you?'', js ''Fine!''],
          \<lparr> title = js ''hello'', byline = js ''31 B '' @ [0xB7] @ js '' text/plain'',
            sentences_count = 3, filename = Some (js ''hello.txt''), truncated = Some False \<rparr>) \<and>
   [js ''Hello world.'', js ''How are you?'', js ''Fine!''] \<noteq> []"
proof -
  let ?s = "step (FileSettled blank_file) initial_state"
  have r: "reachable ?s"
    by (intro reachable_step reachable_init)
  have e: "sentences ?s = sentences initial_state" and c: "revealed ?s = 1"
    by (simp_all add: settle_failure[OF blank_file_ingest] initial_state_def)
  from r sentences_never_empty[of ?s hello_file] have "sentences ?s \<noteq> []" by blast
  moreover from hello_file_ingest sentences_never_empty[of ?s hello_file]
  have "[js ''Hello world.'', js ''How are you?'', js ''Fine!''] \<noteq> []" by blast
  ultimately show ?thesis using r e c hello_file_ingest by simp
qed



lemma trim_id:
  assumes "xs \<noteq> []" and "\<not> isWhiteSpace (hd xs)" and "\<not> isWhiteSpace (last xs)"
  shows "trim xs = xs"
proof -
  from assms(1,2) have a: "dropWhile isWhiteSpace xs = xs" by (cases xs) simp_all
  from assms(1) have e: "rev xs = last xs # rev (butlast xs)"
    by (metis append_butlast_last_id rev.simps(2) rev_rev_ident rev_swap)
  from assms(3)
  have "dropWhile isWhiteSpace (last xs # rev (butlast xs)) = last xs # rev (butlast xs)"
    by simp
  then have "dropWhile isWhiteSpace (rev xs) = rev xs" by (simp only: e)
  then have "rev (dropWhile isWhiteSpace (rev (dropWhile isWhiteSpace xs))) = xs"
    by (simp only: a rev_rev_ident)
  then show ?thesis by (simp only: trim_def)
qed

lemma many_sentences_text:
  "concat (replicate (Suc n) (js ''a.'')) = 0x61 # 0x2E # concat (replicate n (js ''a.''))"
  by (simp add: js_def)

lemma many_sentences_head:
  "concat (replicate n (js ''a.'')) = [] \<or> hd (concat (replicate n (js ''a.''))) = 0x61"
  by (cases n) (simp_all add: js_def)

lemma many_sentences_last:
  "concat (replicate n (js ''a.'')) = [] \<or> last (concat (replicate n (js ''a.''))) = 0x2E"
  by (induction n) (auto simp: js_def)

lemma many_sentences_replace_ws:
  "replace_ws (concat (replicate n (js ''a.''))) = concat (replicate n (js ''a.''))"
proof (induction n)
  case 0
  show ?case by (simp add: replace_ws_runs)
next
  case (Suc n)
  have "\<not> isWhiteSpace 0x61" and "\<not> isWhiteSpace 0x2E" by (simp_all add: isWhiteSpace_def)
  with Suc show ?case
    by (simp only: many_sentences_text replace_ws_runs collapse_runs.simps if_False)
qed

lemma many_sentences_trim:
  "trim (concat (replicate n (js ''a.''))) = concat (replicate n (js ''a.''))"
proof (cases "concat (replicate n (js ''a.'')) = []")
  case True
  show ?thesis by (simp only: True) (simp add: trim_def)
next
  case False
  have "\<not> isWhiteSpace 0x61" and "\<not> isWhiteSpace 0x2E" by (simp_all add: isWhiteSpace_def)
  with False many_sentences_head[of n] many_sentences_last[of n] show ?thesis
    by (intro trim_id) simp_all
qed

lemma many_sentences_leading:
  "takeWhile isTerminator (concat (replicate n (js ''a.''))) = [] \<and>
   dropWhile isTerminator (concat (replicate n (js ''a.''))) = concat (replicate n (js ''a.''))"
  by (cases n) (simp_all add: js_def isTerminator_def)

lemma many_sentences_match:
  "sentence_runs (concat (replicate n (js ''a.''))) = replicate n (js ''a.'')"
proof (induction n)
  case 0
  show ?case by (simp add: sentence_runs_Nil)
next
  case (Suc n)
  let ?r = "concat (replicate n (js ''a.''))"
  have t: "\<not> isTerminator 0x61" "isTerminator 0x2E" by (simp_all add: isTerminator_def)
  have d1: "dropWhile isTerminator (0x61 # 0x2E # ?r) = 0x61 # 0x2E # ?r"
    using t by simp
  have d2: "dropWhile (\<lambda>c. \<not> isTerminator c) (0x61 # 0x2E # ?r) = 0x2E # ?r"
    using t by simp
  have t2: "takeWhile (\<lambda>c. \<not> isTerminator c) (0x61 # 0x2E # ?r) = [0x61]"
    using t by simp
  have t3: "takeWhile isTerminator (0x2E # ?r) = [0x2E]"
    using t many_sentences_leading[of n] by simp
  have d3: "dropWhile isTerminator (0x2E # ?r) = ?r"
    using t many_sentences_leading[of n] by simp
  have "sentence_runs (0x61 # 0x2E # ?r) = ([0x61] @ [0x2E]) # sentence_runs ?r"
    using sentence_runs_more[of "0x61 # 0x2E # ?r"] by (simp only: d1 d2 t2 t3 d3) simp
  with Suc show ?case by (simp add: many_sentences_text) (simp add: js_def)
qed

lemma many_sentences_split:
  "splitIntoSentences (trim (replace_ws (concat (replicate n (js ''a.''))))) =
     replicate n (js ''a.'')"
proof -
  have "trim (js ''a.'') = js ''a.''"
    by (simp add: eval_strings)
  then have "map trim (replicate n (js ''a.'')) = replicate n (js ''a.'')"
    by (simp add: map_replicate)
  then show ?thesis
    by (simp only: splitIntoSentences_eq many_sentences_replace_ws many_sentences_trim
        many_sentences_match)
qed

lemma many_sentences_extract:
  "extractText (many_sentences_file n) = Inr (concat (replicate n (js ''a.'')))"
  by (simp add: extractText_def many_sentences_file_def ends_with_pdf_def js_def)

lemma many_sentences_ingest:
  "ingest (many_sentences_file 2200) =
     Inr (replicate 2200 (js ''a.''),
          \<lparr> title = js ''many'', byline = js ''4.3 KB '' @ [0xB7] @ js '' text/plain'',
            sentences_count = 2200, filename = Some (js ''many.txt''), truncated = Some True \<rparr>)"
proof -
  have t: "strip_extension (js ''many.txt'') = js ''many''" "js ''many'' \<noteq> []"
    "js ''text/plain'' \<noteq> []"
    by (simp_all add: eval_extension js_def)
  show ?thesis
    by (simp add: ingest_def many_sentences_extract many_sentences_split MAX_SENTENCES_def Let_def)
      (simp add: many_sentences_file_def t, simp add: js_def)
qed

text \<open>
  C7. After a successful ingestion the stored sentences are the first 2200 of the segmented
  text, so at most 2200, and \<open>truncated\<close> is set exactly when the text segments into 2200
  sentences or more; a text of exactly 2200 sentences is marked truncated although all its
  sentences are stored.
\<close>

theorem ingestion_truncates_at_maximum:
  assumes "extractText f = Inr raw" and "ingest f = Inr (ss, m)"
  shows "sentences (handleFileChange (Some f) s) = ss \<and>
         documentMeta (handleFileChange (Some f) s) = m \<and>
         ss = take 2200 (splitIntoSentences (trim (replace_ws raw))) \<and>
         length ss \<le> 2200 \<and>
         truncated m = Some (2200 \<le> length (splitIntoSentences (trim (replace_ws raw)))) \<and>
         (length (splitIntoSentences (trim (replace_ws raw))) = 2200 \<longrightarrow>
            truncated m = Some True \<and> ss = splitIntoSentences (trim (replace_ws raw)))"
proof -
  from assms(2) have h: "handleFileChange (Some f) s =
      (handleFileChange_begin s)\<lparr>sentences := ss, revealed := 1, documentMeta := m,
        isParsing := False\<rparr>"
    by (simp add: handleFileChange_def settle_success)
  from assms ingest_Inr[OF assms(2)]
  have ss: "ss = take 2200 (splitIntoSentences (trim (replace_ws raw)))"
    and tr: "truncated m = Some (2200 \<le> length ss)"
    by (auto simp: MAX_SENTENCES_def)
  from ss have "length ss \<le> 2200" by simp
  moreover from ss tr
  have "truncated m = Some (2200 \<le> length (splitIntoSentences (trim (replace_ws raw))))"
    by simp
  ultimately show ?thesis using ss h by simp
qed

text \<open>The theorem at a text of exactly 2200 sentences and at \<open>hello.txt\<close>.\<close>

theorem ingestion_truncates_at_maximum_witness:
  "length (splitIntoSentences (trim (replace_ws (concat (replicate 2200 (js ''a.'')))))) = 2200 \<and>
   sentences (handleFileChange (Some (many_sentences_file 2200)) initial_state) =
     splitIntoSentences (trim (replace_ws (concat (replicate 2200 (js ''a.''))))) \<and>
   truncated (documentMeta (handleFileChange (Some (many_sentences_file 2200)) initial_state)) =
     Some True \<and>
   sentences (handleFileChange (Some hello_file) initial_state) =
     [js ''Hello world.'', js ''How are you?'', js ''Fine!''] \<and>
   truncated (documentMeta (handleFileChange (Some hello_file) initial_state)) = Some False"
proof -
  let ?raw = "concat (replicate 2200 (js ''a.''))"
  have n: "length (splitIntoSentences (trim (replace_ws ?raw))) = 2200"
    by (simp only: many_sentences_split length_replicate)
  have x: "extractText hello_file = Inr (js ''Hello world. How are you? Fine!'')"
    by (simp add: extractText_def hello_file_def ends_with_pdf_def js_def)
  note big = ingestion_truncates_at_maximum[OF many_sentences_extract many_sentences_ingest,
      of initial_state]
  note small = ingestion_truncates_at_maximum[OF x hello_file_ingest, of initial_state]
  let ?big = "handleFileChange (Some (many_sentences_file 2200)) initial_state"
  let ?small = "handleFileChange (Some hello_file) initial_state"
  from big n have b1: "sentences ?big = splitIntoSentences (trim (replace_ws ?raw))"
    by metis
  from big n have b2: "truncated (documentMeta ?big) = Some True"
    by metis
  from small have s1: "sentences ?small = [js ''Hello world.'', js ''How are you?'', js ''Fine!'']"
    by (rule conjunct1)
  from small have "documentMeta ?small =
      \<lparr> title = js ''hello'', byline = js ''31 B '' @ [0xB7] @ js '' text/plain'',
        sentences_count = 3, filename = Some (js ''hello.txt''), truncated = Some False \<rparr>"
    by (rule conjunct2[THEN conjunct1])
  then have s2: "truncated (documentMeta ?small) = Some False"
    by (simp only: DocumentMeta.simps)
  from n b1 b2 s1 s2 show ?thesis by blast
qed

lemma touchTracker_run_command: "touchTracker (run_command c s) = touchTracker s"
  by (simp add: run_command_def handleReveal_def handleUnreveal_def
      split: option.splits command.splits)

lemma handleTouch_emitted:
  "fst (handleTouch sd now s) =
     (if now - touchTracker s sd < 320 then Some (side_command sd) else None)"
  by (simp add: handleTouch_def Let_def DOUBLE_TAP_WINDOW_def side_command_def)

lemma handleTouch_tracker:
  "touchTracker (snd (handleTouch sd now s)) = (touchTracker s)(sd := now)"
  by (simp add: handleTouch_def Let_def touchTracker_run_command)

lemma handleTouches_Cons:
  "fst (handleTouches ((sd, now) # taps) s) =
     fst (handleTouch sd now s) # fst (handleTouches taps (snd (handleTouch sd now s)))"
  by (simp add: split_beta Let_def)

text \<open>What a tap does, case by case: the handler that it calls and the state that it leaves.\<close>

lemma handleTouch_fires_right:
  "now - touchTracker s Right < 320 \<Longrightarrow>
   handleTouch Right now s =
     (Some Reveal, (handleReveal s)\<lparr>touchTracker := (touchTracker s)(Right := now)\<rparr>)"
  by (simp add: handleTouch_def Let_def run_command_def DOUBLE_TAP_WINDOW_def handleReveal_def)

lemma handleTouch_fires_left:
  "now - touchTracker s Left < 320 \<Longrightarrow>
   handleTouch Left now s =
     (Some Unreveal, (handleUnreveal s)\<lparr>touchTracker := (touchTracker s)(Left := now)\<rparr>)"
  by (simp add: handleTouch_def Let_def run_command_def DOUBLE_TAP_WINDOW_def handleUnreveal_def)

lemma handleTouch_silent:
  "\<not> now - touchTracker s sd < 320 \<Longrightarrow>
   handleTouch sd now s = (None, s\<lparr>touchTracker := (touchTracker s)(sd := now)\<rparr>)"
  by (simp add: handleTouch_def Let_def run_command_def DOUBLE_TAP_WINDOW_def)

text \<open>
  C5. A tap on the right at the time \<open>now\<close> calls \<open>handleReveal\<close>, and a tap on the left
  calls \<open>handleUnreveal\<close>, exactly when the time recorded for the last tap on the same side
  is less than 320 before \<open>now\<close>; otherwise the tap calls no handler and changes nothing but
  the tracker. In every case \<open>now\<close> becomes the time recorded for that side and the time
  recorded for the other side stays. A tap on the other side therefore never pairs with it:
  what a tap emits is the same with or without a tap on the other side before it, two taps
  on opposite sides emit what each of them emits alone, and when neither is within the
  window of the time recorded for its own side they call no handler however close they
  are. The tracker of a fresh view records the time 0 for both sides.
\<close>

theorem double_tap_rule:
  "(now - touchTracker s Right < 320 \<longrightarrow>
      handleTouch Right now s =
        (Some Reveal, (handleReveal s)\<lparr>touchTracker := (touchTracker s)(Right := now)\<rparr>)) \<and>
   (now - touchTracker s Left < 320 \<longrightarrow>
      handleTouch Left now s =
        (Some Unreveal, (handleUnreveal s)\<lparr>touchTracker := (touchTracker s)(Left := now)\<rparr>)) \<and>
   (\<not> now - touchTracker s sd < 320 \<longrightarrow>
      handleTouch sd now s = (None, s\<lparr>touchTracker := (touchTracker s)(sd := now)\<rparr>)) \<and>
   (fst (handleTouch sd now s) = Some (side_command sd) \<longleftrightarrow> now - touchTracker s sd < 320) \<and>
   (fst (handleTouch sd now s) = None \<longleftrightarrow> \<not> now - touchTracker s sd < 320) \<and>
   side_command Right = Reveal \<and> side_command Left = Unreveal \<and>
   touchTracker (snd (handleTouch sd now s)) sd = now \<and>
   (sd' \<noteq> sd \<longrightarrow>
      touchTracker (snd (handleTouch sd now s)) sd' = touchTracker s sd' \<and>
      fst (handleTouch sd' now' (snd (handleTouch sd now s))) = fst (handleTouch sd' now' s) \<and>
      fst (handleTouches [(sd, now), (sd', now')] s) =
        [fst (handleTouch sd now s), fst (handleTouch sd' now' s)]) \<and>
   (sd' \<noteq> sd \<and> 320 \<le> now - touchTracker s sd \<and> 320 \<le> now' - touchTracker s sd' \<longrightarrow>
      handleTouches [(sd, now), (sd', now')] s =
        ([None, None], s\<lparr>touchTracker := (touchTracker s)(sd := now, sd' := now')\<rparr>))"
proof (intro conjI impI)
  assume "now - touchTracker s Right < 320"
  then show "handleTouch Right now s =
      (Some Reveal, (handleReveal s)\<lparr>touchTracker := (touchTracker s)(Right := now)\<rparr>)"
    by (rule handleTouch_fires_right)
next
  assume "now - touchTracker s Left < 320"
  then show "handleTouch Left now s =
      (Some Unreveal, (handleUnreveal s)\<lparr>touchTracker := (touchTracker s)(Left := now)\<rparr>)"
    by (rule handleTouch_fires_left)
next
  assume "\<not> now - touchTracker s sd < 320"
  then show "handleTouch sd now s = (None, s\<lparr>touchTracker := (touchTracker s)(sd := now)\<rparr>)"
    by (rule handleTouch_silent)
next
  show "fst (handleTouch sd now s) = Some (side_command sd) \<longleftrightarrow> now - touchTracker s sd < 320"
    by (simp add: handleTouch_emitted)
  show "fst (handleTouch sd now s) = None \<longleftrightarrow> \<not> now - touchTracker s sd < 320"
    by (simp add: handleTouch_emitted)
  show "side_command Right = Reveal" and "side_command Left = Unreveal"
    by (simp_all add: side_command_def)
  show "touchTracker (snd (handleTouch sd now s)) sd = now"
    by (simp add: handleTouch_tracker)
next
  assume d: "sd' \<noteq> sd"
  then show t: "touchTracker (snd (handleTouch sd now s)) sd' = touchTracker s sd'"
    by (simp add: handleTouch_tracker)
  then show e: "fst (handleTouch sd' now' (snd (handleTouch sd now s))) =
      fst (handleTouch sd' now' s)"
    by (simp add: handleTouch_emitted)
  then show "fst (handleTouches [(sd, now), (sd', now')] s) =
      [fst (handleTouch sd now s), fst (handleTouch sd' now' s)]"
    by (simp add: handleTouches_Cons del: handleTouches.simps(2))
next
  assume a: "sd' \<noteq> sd \<and> 320 \<le> now - touchTracker s sd \<and> 320 \<le> now' - touchTracker s sd'"
  then have one: "handleTouch sd now s = (None, s\<lparr>touchTracker := (touchTracker s)(sd := now)\<rparr>)"
    by (intro handleTouch_silent) simp
  from a have "\<not> now' - touchTracker (s\<lparr>touchTracker := (touchTracker s)(sd := now)\<rparr>) sd' < 320"
    by simp
  then have two: "handleTouch sd' now' (s\<lparr>touchTracker := (touchTracker s)(sd := now)\<rparr>) =
      (None, s\<lparr>touchTracker := (touchTracker s)(sd := now, sd' := now')\<rparr>)"
    by (simp add: handleTouch_silent)
  show "handleTouches [(sd, now), (sd', now')] s =
      ([None, None], s\<lparr>touchTracker := (touchTracker s)(sd := now, sd' := now')\<rparr>)"
    by (simp add: one two)
qed

text \<open>
  The theorem on the startup view: a first tap on the right at 1000 calls no handler; a
  second one at 1100 calls \<open>handleReveal\<close> and the cursor is 2; a tap on the right at 1000
  and a tap on the left one unit later call no handler. And on a view of three sentences
  with the cursor at 2: a second tap on the left calls \<open>handleUnreveal\<close> and the cursor is 1.
\<close>

theorem double_tap_rule_witness:
  "handleTouch Right 1000 initial_state =
     (None, initial_state\<lparr>touchTracker := (\<lambda>_. 0)(Right := 1000)\<rparr>) \<and>
   handleTouch Right 1100 (initial_state\<lparr>touchTracker := (\<lambda>_. 0)(Right := 1000)\<rparr>) =
     (Some Reveal, initial_state\<lparr>revealed := 2, touchTracker := (\<lambda>_. 0)(Right := 1100)\<rparr>) \<and>
   handleTouch Left 1100 ((three_sentences 2)\<lparr>touchTracker := (\<lambda>_. 0)(Left := 1000)\<rparr>) =
     (Some Unreveal, (three_sentences 2)\<lparr>revealed := 1, touchTracker := (\<lambda>_. 0)(Left := 1100)\<rparr>) \<and>
   Left \<noteq> Right \<and>
   handleTouches [(Right, 1000), (Left, 1001)] initial_state =
     ([None, None], initial_state\<lparr>touchTracker := (\<lambda>_. 0)(Right := 1000, Left := 1001)\<rparr>)"
proof -
  let ?s1 = "initial_state\<lparr>touchTracker := (\<lambda>_. 0)(Right := 1000)\<rparr>"
  let ?l1 = "(three_sentences 2)\<lparr>touchTracker := (\<lambda>_. 0)(Left := 1000)\<rparr>"
  have t: "touchTracker initial_state = (\<lambda>_. 0)"
    by (simp add: initial_state_def)
  have r: "handleReveal ?s1 = ?s1\<lparr>revealed := 2\<rparr>"
    by (simp add: handleReveal_def initial_state_def default_excerpt_length)
  have u: "handleUnreveal ?l1 = ?l1\<lparr>revealed := 1\<rparr>"
    by (simp add: handleUnreveal_def three_sentences_def)
  note fresh = double_tap_rule[of 1000 initial_state Right Left 1001]
  have "\<not> 1000 - touchTracker initial_state Right < 320"
    by (simp add: t)
  with fresh
  have "handleTouch Right 1000 initial_state =
      (None, initial_state\<lparr>touchTracker := (touchTracker initial_state)(Right := 1000)\<rparr>)"
    by blast
  then have a: "handleTouch Right 1000 initial_state = (None, ?s1)"
    by (simp only: t)
  have "Left \<noteq> Right \<and> 320 \<le> 1000 - touchTracker initial_state Right \<and>
      320 \<le> 1001 - touchTracker initial_state Left"
    by (simp add: t)
  with fresh
  have "handleTouches [(Right, 1000), (Left, 1001)] initial_state =
      ([None, None],
       initial_state\<lparr>touchTracker := (touchTracker initial_state)(Right := 1000, Left := 1001)\<rparr>)"
    by blast
  then have d: "handleTouches [(Right, 1000), (Left, 1001)] initial_state =
      ([None, None], initial_state\<lparr>touchTracker := (\<lambda>_. 0)(Right := 1000, Left := 1001)\<rparr>)"
    by (simp only: t)
  have "1100 - touchTracker ?s1 Right < 320"
    by simp
  with double_tap_rule[of 1100 ?s1 Right Left 0]
  have "handleTouch Right 1100 ?s1 =
      (Some Reveal, (handleReveal ?s1)\<lparr>touchTracker := (touchTracker ?s1)(Right := 1100)\<rparr>)"
    by blast
  then have b: "handleTouch Right 1100 ?s1 =
      (Some Reveal, initial_state\<lparr>revealed := 2, touchTracker := (\<lambda>_. 0)(Right := 1100)\<rparr>)"
    by (simp add: r)
  have "1100 - touchTracker ?l1 Left < 320"
    by simp
  with double_tap_rule[of 1100 ?l1 Left Right 0]
  have "handleTouch Left 1100 ?l1 =
      (Some Unreveal, (handleUnreveal ?l1)\<lparr>touchTracker := (touchTracker ?l1)(Left := 1100)\<rparr>)"
    by blast
  then have c: "handleTouch Left 1100 ?l1 =
      (Some Unreveal, (three_sentences 2)\<lparr>revealed := 1, touchTracker := (\<lambda>_. 0)(Left := 1100)\<rparr>)"
    by (simp add: u)
  from a b c d show ?thesis by simp
qed

text \<open>Runs of taps on one side: a handler and an update of the tracker commute.\<close>

lemma handleTouches_step:
  "handleTouch sd now s = (c, s1) \<Longrightarrow> handleTouches taps s1 = (cs, s2) \<Longrightarrow>
   handleTouches ((sd, now) # taps) s = (c # cs, s2)"
  by simp

lemma handleReveal_tracker:
  "handleReveal (s\<lparr>touchTracker := f\<rparr>) = (handleReveal s)\<lparr>touchTracker := f\<rparr>"
  by (simp add: handleReveal_def)

lemma handleUnreveal_tracker:
  "handleUnreveal (s\<lparr>touchTracker := f\<rparr>) = (handleUnreveal s)\<lparr>touchTracker := f\<rparr>"
  by (simp add: handleUnreveal_def)

lemma funpow_handleReveal_tracker:
  "(handleReveal ^^ n) (s\<lparr>touchTracker := f\<rparr>) = ((handleReveal ^^ n) s)\<lparr>touchTracker := f\<rparr>"
  by (induction n) (simp_all add: handleReveal_def)

lemma funpow_handleUnreveal_tracker:
  "(handleUnreveal ^^ n) (s\<lparr>touchTracker := f\<rparr>) = ((handleUnreveal ^^ n) s)\<lparr>touchTracker := f\<rparr>"
  by (induction n) (simp_all add: handleUnreveal_def)

lemma touchTracker_funpow_handleReveal: "touchTracker ((handleReveal ^^ n) s) = touchTracker s"
  by (induction n) (simp_all add: handleReveal_def)

lemma touchTracker_funpow_handleUnreveal: "touchTracker ((handleUnreveal ^^ n) s) = touchTracker s"
  by (induction n) (simp_all add: handleUnreveal_def)

lemma rapid_taps_right:
  "gaps_within (t # ts) \<Longrightarrow>
   handleTouches (map (Pair Right) (t # ts)) s =
     ((if t - touchTracker s Right < 320 then Some Reveal else None)
        # replicate (length ts) (Some Reveal),
      ((handleReveal ^^ (length ts + (if t - touchTracker s Right < 320 then 1 else 0))) s)
        \<lparr>touchTracker := (touchTracker s)(Right := last (t # ts))\<rparr>)"
proof (induction ts arbitrary: t s)
  case Nil
  show ?case
    by (cases "t - touchTracker s Right < 320")
      (simp_all add: handleTouch_fires_right handleTouch_silent fun_upd_def)
next
  case (Cons u us)
  from Cons.prems have g: "gaps_within (u # us)" and d: "u - t < 320"
    by (simp_all add: DOUBLE_TAP_WINDOW_def)
  note ih = Cons.IH[OF g]
  show ?case
  proof (cases "t - touchTracker s Right < 320")
    case True
    let ?s1 = "(handleReveal s)\<lparr>touchTracker := (touchTracker s)(Right := t)\<rparr>"
    have one: "handleTouch Right t s = (Some Reveal, ?s1)"
      using True by (rule handleTouch_fires_right)
    have tr: "touchTracker ?s1 Right = t" "touchTracker (handleReveal s) = touchTracker s"
      by (simp_all add: handleReveal_def)
    have two: "handleTouches (map (Pair Right) (u # us)) ?s1 =
        (Some Reveal # replicate (length us) (Some Reveal),
         ((handleReveal ^^ (length us + 1)) ?s1)
           \<lparr>touchTracker := (touchTracker ?s1)(Right := last (u # us))\<rparr>)"
      using ih[of ?s1] d by (simp only: tr if_True)
    have st: "((handleReveal ^^ (length us + 1)) ?s1)
          \<lparr>touchTracker := (touchTracker ?s1)(Right := last (u # us))\<rparr> =
        ((handleReveal ^^ (length (u # us) + 1)) s)
          \<lparr>touchTracker := (touchTracker s)(Right := last (t # u # us))\<rparr>"
      by (simp add: funpow_handleReveal_tracker handleReveal_tracker funpow_swap1)
    have fin: "handleTouches (map (Pair Right) (t # u # us)) s =
        (Some Reveal # Some Reveal # replicate (length us) (Some Reveal),
         ((handleReveal ^^ (length us + 1)) ?s1)
           \<lparr>touchTracker := (touchTracker ?s1)(Right := last (u # us))\<rparr>)"
      using handleTouches_step[OF one two] by (simp only: list.map)
    show ?thesis unfolding fin st using True by (simp add: fun_upd_def)
  next
    case False
    let ?s1 = "s\<lparr>touchTracker := (touchTracker s)(Right := t)\<rparr>"
    have one: "handleTouch Right t s = (None, ?s1)"
      using False by (rule handleTouch_silent)
    have tr: "touchTracker ?s1 Right = t"
      by simp
    have two: "handleTouches (map (Pair Right) (u # us)) ?s1 =
        (Some Reveal # replicate (length us) (Some Reveal),
         ((handleReveal ^^ (length us + 1)) ?s1)
           \<lparr>touchTracker := (touchTracker ?s1)(Right := last (u # us))\<rparr>)"
      using ih[of ?s1] d by (simp only: tr if_True)
    have st: "((handleReveal ^^ (length us + 1)) ?s1)
          \<lparr>touchTracker := (touchTracker ?s1)(Right := last (u # us))\<rparr> =
        ((handleReveal ^^ (length (u # us) + 0)) s)
          \<lparr>touchTracker := (touchTracker s)(Right := last (t # u # us))\<rparr>"
      by (simp add: funpow_handleReveal_tracker handleReveal_tracker)
    have fin: "handleTouches (map (Pair Right) (t # u # us)) s =
        (None # Some Reveal # replicate (length us) (Some Reveal),
         ((handleReveal ^^ (length us + 1)) ?s1)
           \<lparr>touchTracker := (touchTracker ?s1)(Right := last (u # us))\<rparr>)"
      using handleTouches_step[OF one two] by (simp only: list.map)
    show ?thesis unfolding fin st using False by (simp add: fun_upd_def)
  qed
qed

lemma rapid_taps_left:
  "gaps_within (t # ts) \<Longrightarrow>
   handleTouches (map (Pair Left) (t # ts)) s =
     ((if t - touchTracker s Left < 320 then Some Unreveal else None)
        # replicate (length ts) (Some Unreveal),
      ((handleUnreveal ^^ (length ts + (if t - touchTracker s Left < 320 then 1 else 0))) s)
        \<lparr>touchTracker := (touchTracker s)(Left := last (t # ts))\<rparr>)"
proof (induction ts arbitrary: t s)
  case Nil
  show ?case
    by (cases "t - touchTracker s Left < 320")
      (simp_all add: handleTouch_fires_left handleTouch_silent fun_upd_def)
next
  case (Cons u us)
  from Cons.prems have g: "gaps_within (u # us)" and d: "u - t < 320"
    by (simp_all add: DOUBLE_TAP_WINDOW_def)
  note ih = Cons.IH[OF g]
  show ?case
  proof (cases "t - touchTracker s Left < 320")
    case True
    let ?s1 = "(handleUnreveal s)\<lparr>touchTracker := (touchTracker s)(Left := t)\<rparr>"
    have one: "handleTouch Left t s = (Some Unreveal, ?s1)"
      using True by (rule handleTouch_fires_left)
    have tr: "touchTracker ?s1 Left = t" "touchTracker (handleUnreveal s) = touchTracker s"
      by (simp_all add: handleUnreveal_def)
    have two: "handleTouches (map (Pair Left) (u # us)) ?s1 =
        (Some Unreveal # replicate (length us) (Some Unreveal),
         ((handleUnreveal ^^ (length us + 1)) ?s1)
           \<lparr>touchTracker := (touchTracker ?s1)(Left := last (u # us))\<rparr>)"
      using ih[of ?s1] d by (simp only: tr if_True)
    have st: "((handleUnreveal ^^ (length us + 1)) ?s1)
          \<lparr>touchTracker := (touchTracker ?s1)(Left := last (u # us))\<rparr> =
        ((handleUnreveal ^^ (length (u # us) + 1)) s)
          \<lparr>touchTracker := (touchTracker s)(Left := last (t # u # us))\<rparr>"
      by (simp add: funpow_handleUnreveal_tracker handleUnreveal_tracker funpow_swap1)
    have fin: "handleTouches (map (Pair Left) (t # u # us)) s =
        (Some Unreveal # Some Unreveal # replicate (length us) (Some Unreveal),
         ((handleUnreveal ^^ (length us + 1)) ?s1)
           \<lparr>touchTracker := (touchTracker ?s1)(Left := last (u # us))\<rparr>)"
      using handleTouches_step[OF one two] by (simp only: list.map)
    show ?thesis unfolding fin st using True by (simp add: fun_upd_def)
  next
    case False
    let ?s1 = "s\<lparr>touchTracker := (touchTracker s)(Left := t)\<rparr>"
    have one: "handleTouch Left t s = (None, ?s1)"
      using False by (rule handleTouch_silent)
    have tr: "touchTracker ?s1 Left = t"
      by simp
    have two: "handleTouches (map (Pair Left) (u # us)) ?s1 =
        (Some Unreveal # replicate (length us) (Some Unreveal),
         ((handleUnreveal ^^ (length us + 1)) ?s1)
           \<lparr>touchTracker := (touchTracker ?s1)(Left := last (u # us))\<rparr>)"
      using ih[of ?s1] d by (simp only: tr if_True)
    have st: "((handleUnreveal ^^ (length us + 1)) ?s1)
          \<lparr>touchTracker := (touchTracker ?s1)(Left := last (u # us))\<rparr> =
        ((handleUnreveal ^^ (length (u # us) + 0)) s)
          \<lparr>touchTracker := (touchTracker s)(Left := last (t # u # us))\<rparr>"
      by (simp add: funpow_handleUnreveal_tracker handleUnreveal_tracker)
    have fin: "handleTouches (map (Pair Left) (t # u # us)) s =
        (None # Some Unreveal # replicate (length us) (Some Unreveal),
         ((handleUnreveal ^^ (length us + 1)) ?s1)
           \<lparr>touchTracker := (touchTracker ?s1)(Left := last (u # us))\<rparr>)"
      using handleTouches_step[OF one two] by (simp only: list.map)
    show ?thesis unfolding fin st using False by (simp add: fun_upd_def)
  qed
qed

text \<open>
  C6, as the claim states it, fails: three taps on the right at 1000, 1100 and 1200, each
  within the window of the one before, emit a reveal at the second tap and again at the
  third, not at every other tap; on the startup view they call \<open>handleReveal\<close> twice and the
  cursor goes from 1 to 3.
\<close>

theorem rapid_taps_every_other_counterexample:
  "gaps_within [1000, 1100, 1200] \<and>
   fst (handleTouches [(Right, 1000), (Right, 1100), (Right, 1200)] initial_state) =
     [None, Some Reveal, Some Reveal] \<and>
   \<not> fires_every_other
       (fst (handleTouches [(Right, 1000), (Right, 1100), (Right, 1200)] initial_state)) \<and>
   revealed initial_state = 1 \<and>
   revealed (snd (handleTouches [(Right, 1000), (Right, 1100), (Right, 1200)] initial_state)) = 3"
proof -
  have t: "touchTracker initial_state Right = 0"
    by (simp add: initial_state_def)
  have g: "gaps_within [1000, 1100, 1200]"
    by (simp add: DOUBLE_TAP_WINDOW_def)
  have h: "revealed (handleReveal (handleReveal initial_state)) = 3" "revealed initial_state = 1"
    by (simp_all add: handleReveal_def initial_state_def default_excerpt_length)
  have "handleTouches (map (Pair Right) [1000, 1100, 1200]) initial_state =
      ([None, Some Reveal, Some Reveal],
       (handleReveal (handleReveal initial_state))
         \<lparr>touchTracker := (touchTracker initial_state)(Right := 1200)\<rparr>)"
    using rapid_taps_right[OF g, of initial_state] by (simp add: t eval_nat_numeral)
  then show ?thesis using g h by simp
qed

text \<open>
  C6, amended. In a run of taps on one side in which every consecutive gap is smaller than
  320, every tap after the first emits the command of the side and calls its handler, and
  the first tap does so exactly when it falls within the window of the time recorded before
  the run: on the right \<open>handleReveal\<close> is called once for every tap after the first and once
  more when the first tap fires, on the left \<open>handleUnreveal\<close> likewise, and the tracker of
  the side holds the time of the last tap.
\<close>

theorem rapid_taps_fire_after_first:
  assumes "gaps_within (t # ts)"
  shows "handleTouches (map (Pair Right) (t # ts)) s =
           ((if t - touchTracker s Right < 320 then Some Reveal else None)
              # replicate (length ts) (Some Reveal),
            ((handleReveal ^^ (length ts + (if t - touchTracker s Right < 320 then 1 else 0))) s)
              \<lparr>touchTracker := (touchTracker s)(Right := last (t # ts))\<rparr>) \<and>
         handleTouches (map (Pair Left) (t # ts)) s =
           ((if t - touchTracker s Left < 320 then Some Unreveal else None)
              # replicate (length ts) (Some Unreveal),
            ((handleUnreveal ^^ (length ts + (if t - touchTracker s Left < 320 then 1 else 0))) s)
              \<lparr>touchTracker := (touchTracker s)(Left := last (t # ts))\<rparr>)"
  using assms by (simp only: rapid_taps_right rapid_taps_left simp_thms)

text \<open>
  The theorem at four taps, 100 apart, on a view of three sentences: on the left with the
  cursor at 3 they emit three unreveals and the cursor ends at 1; on the right with the
  cursor at 1 they emit three reveals and the cursor ends at 3.
\<close>

theorem rapid_taps_fire_after_first_witness:
  "gaps_within [1000, 1100, 1200, 1300] \<and>
   fst (handleTouches (map (Pair Left) [1000, 1100, 1200, 1300]) (three_sentences 3)) =
     [None, Some Unreveal, Some Unreveal, Some Unreveal] \<and>
   revealed (snd (handleTouches (map (Pair Left) [1000, 1100, 1200, 1300]) (three_sentences 3))) = 1 \<and>
   fst (handleTouches (map (Pair Right) [1000, 1100, 1200, 1300]) (three_sentences 1)) =
     [None, Some Reveal, Some Reveal, Some Reveal] \<and>
   revealed (snd (handleTouches (map (Pair Right) [1000, 1100, 1200, 1300]) (three_sentences 1))) = 3"
proof -
  have g: "gaps_within [1000, 1100, 1200, 1300]"
    by (simp add: DOUBLE_TAP_WINDOW_def)
  have t: "touchTracker (three_sentences c) = (\<lambda>_. 0)" for c
    by (simp add: three_sentences_def initial_state_def)
  have u: "revealed (handleUnreveal (handleUnreveal (handleUnreveal (three_sentences 3)))) = 1"
    by (simp add: handleUnreveal_def three_sentences_def)
  have r: "revealed (handleReveal (handleReveal (handleReveal (three_sentences 1)))) = 3"
    by (simp add: handleReveal_def three_sentences_def)
  from rapid_taps_fire_after_first[OF g, of "three_sentences 3"]
  have l: "handleTouches (map (Pair Left) [1000, 1100, 1200, 1300]) (three_sentences 3) =
      ([None, Some Unreveal, Some Unreveal, Some Unreveal],
       (handleUnreveal (handleUnreveal (handleUnreveal (three_sentences 3))))
         \<lparr>touchTracker := (\<lambda>_. 0)(Left := 1300)\<rparr>)"
    by (simp add: t eval_nat_numeral)
  from rapid_taps_fire_after_first[OF g, of "three_sentences 1"]
  have rr: "handleTouches (map (Pair Right) [1000, 1100, 1200, 1300]) (three_sentences 1) =
      ([None, Some Reveal, Some Reveal, Some Reveal],
       (handleReveal (handleReveal (handleReveal (three_sentences 1))))
         \<lparr>touchTracker := (\<lambda>_. 0)(Right := 1300)\<rparr>)"
    by (simp add: t eval_nat_numeral)
  show ?thesis using g by (simp only: l rr fst_conv snd_conv) (simp add: u r)
qed

section \<open>Properties of the question proxy\<close>

lemma json_shape_cases [case_names Str Arr Other]:
  obtains (Str) s where "v = Some (JStr s)"
  | (Arr) xs where "v = Some (JArr xs)"
  | (Other) "\<And>s. v \<noteq> Some (JStr s)" "\<And>xs. v \<noteq> Some (JArr xs)"
proof (cases v)
  case None
  then show ?thesis using that(3) by simp
next
  case (Some j)
  then show ?thesis using that by (cases j) simp_all
qed

lemma case_other_shape:
  assumes "\<And>s. v \<noteq> Some (JStr s)" and "\<And>xs. v \<noteq> Some (JArr xs)"
  shows "(case v of Some (JStr s) \<Rightarrow> f s | Some (JArr xs) \<Rightarrow> g xs | _ \<Rightarrow> d) = d"
    and "(case v of Some (JStr s) \<Rightarrow> f s | _ \<Rightarrow> d) = d"
    and "(case v of Some (JArr xs) \<Rightarrow> g xs | _ \<Rightarrow> d) = d"
proof -
  show "(case v of Some (JStr s) \<Rightarrow> f s | Some (JArr xs) \<Rightarrow> g xs | _ \<Rightarrow> d) = d"
  proof (cases v)
    case None
    then show ?thesis by simp
  next
    case (Some j)
    with assms show ?thesis by (cases j) auto
  qed
  show "(case v of Some (JStr s) \<Rightarrow> f s | _ \<Rightarrow> d) = d"
  proof (cases v)
    case None
    then show ?thesis by simp
  next
    case (Some j)
    with assms show ?thesis by (cases j) auto
  qed
  show "(case v of Some (JArr xs) \<Rightarrow> g xs | _ \<Rightarrow> d) = d"
  proof (cases v)
    case None
    then show ?thesis by simp
  next
    case (Some j)
    with assms show ?thesis by (cases j) auto
  qed
qed

lemma normalizeGrokResponse_shapes:
  "normalizeGrokResponse engine (Inr data) =
     (case content_of data of
        Some (JStr s) \<Rightarrow> Inr s
      | Some (JArr chunks) \<Rightarrow> join_values engine (js ''\<newline>'') (map chunk_text chunks)
      | _ \<Rightarrow>
        (case output_content_of data of
           Some (JArr chunks) \<Rightarrow> join_values engine (js ''\<newline>'') (map chunk_text chunks)
         | _ \<Rightarrow>
           (case output_text_of data of
              Some (JArr xs) \<Rightarrow> join_values engine (js ''\<newline>'') xs
            | Some (JStr s) \<Rightarrow> Inr s
            | _ \<Rightarrow> Inr NO_TEXT_MESSAGE)))"
  unfolding normalizeGrokResponse_def content_of_def output_content_of_def
    output_text_of_def Let_def
  by simp

lemmas shape_defs = first_shape_or_sentinel_def shapes_in_priority_order_def
  shape_content_string_def shape_content_chunks_def shape_output_blocks_def
  shape_output_text_array_def shape_output_text_string_def

lemma first_shape_or_sentinel_shapes:
  "first_shape_or_sentinel engine data =
     (case content_of data of
        Some (JStr s) \<Rightarrow> Inr s
      | Some (JArr chunks) \<Rightarrow> join_values engine (js ''\<newline>'') (map chunk_text chunks)
      | _ \<Rightarrow>
        (case output_content_of data of
           Some (JArr chunks) \<Rightarrow> join_values engine (js ''\<newline>'') (map chunk_text chunks)
         | _ \<Rightarrow>
           (case output_text_of data of
              Some (JArr xs) \<Rightarrow> join_values engine (js ''\<newline>'') xs
            | Some (JStr s) \<Rightarrow> Inr s
            | _ \<Rightarrow> Inr NO_TEXT_MESSAGE)))"
proof (cases "content_of data" rule: json_shape_cases)
  case (Str s)
  then show ?thesis by (simp add: shape_defs)
next
  case (Arr xs)
  then show ?thesis by (simp add: shape_defs)
next
  case Other
  note c = case_other_shape[of "content_of data", OF Other]
  show ?thesis
  proof (cases "output_content_of data" rule: json_shape_cases)
    case (Str s)
    then show ?thesis
      by (cases "output_text_of data" rule: json_shape_cases)
        (simp_all add: shape_defs c case_other_shape)
  next
    case (Arr xs)
    then show ?thesis by (simp add: shape_defs c)
  next
    case Other
    note o = case_other_shape[of "output_content_of data", OF Other]
    show ?thesis
      by (cases "output_text_of data" rule: json_shape_cases)
        (simp_all add: shape_defs c o case_other_shape)
  qed
qed

lemmas eval_json = normalizeGrokResponse_shapes content_of_def output_content_of_def
  output_text_of_def opt_chain_def chunk_text_def js_def

text \<open>
  C4. \<open>normalizeGrokResponse\<close> returns what the first shape found gives, the shapes being
  tried in the order: \<open>choices[0].message.content\<close> as a string; that content as an array
  of chunks, their \<open>text\<close> fields joined with newlines; \<open>output[0].content\<close> as an array of
  chunks, joined likewise; \<open>output_text\<close> as an array joined with newlines; \<open>output_text\<close>
  as a string. When no shape is found it returns the sentinel. Joining is
  \<open>Array.prototype.join\<close>, which throws when an element is an object that cannot be
  converted to a string. The four examples of the specification follow.
\<close>

theorem normalisation_priority_order:
  "normalizeGrokResponse engine (Inr data) = first_shape_or_sentinel engine data \<and>
   normalizeGrokResponse engine
     (Inr (JObj [(js ''choices'', JArr [JObj [(js ''message'',
        JObj [(js ''content'', JStr x)])]])])) = Inr x \<and>
   normalizeGrokResponse engine
     (Inr (JObj [(js ''choices'', JArr [JObj [(js ''message'',
        JObj [(js ''content'',
          JArr [JObj [(js ''text'', JStr a)], JObj [(js ''text'', JStr b)]])])]])])) =
     Inr (a @ js ''\<newline>'' @ b) \<and>
   normalizeGrokResponse engine (Inr (JObj [(js ''output_text'', JArr [JStr a, JStr b])])) =
     Inr (a @ js ''\<newline>'' @ b) \<and>
   normalizeGrokResponse engine (Inr (JObj [])) = Inr (js ''Grok responded without readable text.'')"
proof (intro conjI)
  show "normalizeGrokResponse engine (Inr data) = first_shape_or_sentinel engine data"
    by (simp only: normalizeGrokResponse_shapes first_shape_or_sentinel_shapes)
  show "normalizeGrokResponse engine
     (Inr (JObj [(js ''choices'', JArr [JObj [(js ''message'',
        JObj [(js ''content'', JStr x)])]])])) = Inr x"
    by (simp add: eval_json)
  show "normalizeGrokResponse engine
     (Inr (JObj [(js ''choices'', JArr [JObj [(js ''message'',
        JObj [(js ''content'',
          JArr [JObj [(js ''text'', JStr a)], JObj [(js ''text'', JStr b)]])])]])])) =
     Inr (a @ js ''\<newline>'' @ b)"
    by (simp add: eval_json)
  show "normalizeGrokResponse engine (Inr (JObj [(js ''output_text'', JArr [JStr a, JStr b])])) =
     Inr (a @ js ''\<newline>'' @ b)"
    by (simp add: eval_json)
  show "normalizeGrokResponse engine (Inr (JObj [])) =
     Inr (js ''Grok responded without readable text.'')"
    by (simp add: eval_json NO_TEXT_MESSAGE_def)
qed

text \<open>
  C9. With no credential in the environment (the variable unset or empty) and a request
  whose question is a string that is not blank, \<open>POST\<close> answers 200 with the fixed
  placeholder and \<open>offline: true\<close>, and calls \<open>fetch\<close> not once.
\<close>

theorem offline_fallback_without_credential:
  assumes "GROK_API_KEY sur = None \<or> GROK_API_KEY sur = Some []"
    and "get_field b (js ''question'') = Some (JStr q)"
    and "trim q \<noteq> []"
  shows "POST sur (Inr b) =
           ([], Inr \<lparr> status = 200,
                      body = JObj [(js ''answer'', JStr FALLBACK_MESSAGE),
                                   (js ''offline'', JBool True)] \<rparr>)"
proof -
  from assms(2) have "b \<noteq> JNull" by auto
  with assms show ?thesis by (auto simp: POST_def Let_def)
qed

text \<open>The theorem at the request \<open>{question: "test"}\<close> of the specification.\<close>

theorem offline_fallback_without_credential_witness:
  "get_field (JObj [(js ''question'', JStr (js ''test''))]) (js ''question'') =
     Some (JStr (js ''test'')) \<and>
   trim (js ''test'') \<noteq> [] \<and>
   POST \<lparr> GROK_API_KEY = None, fetch = (\<lambda>_. Inl OtherValue), engine_message = (\<lambda>_. []) \<rparr>
        (Inr (JObj [(js ''question'', JStr (js ''test''))])) =
     ([], Inr \<lparr> status = 200,
                body = JObj [(js ''answer'', JStr FALLBACK_MESSAGE),
                             (js ''offline'', JBool True)] \<rparr>)"
proof -
  let ?sur = "\<lparr> GROK_API_KEY = None, fetch = (\<lambda>_. Inl OtherValue), engine_message = (\<lambda>_. []) \<rparr>"
  have k: "GROK_API_KEY ?sur = None \<or> GROK_API_KEY ?sur = Some []"
    by simp
  have g: "get_field (JObj [(js ''question'', JStr (js ''test''))]) (js ''question'') =
      Some (JStr (js ''test''))"
    by simp
  have t: "trim (js ''test'') \<noteq> []"
    by (simp add: eval_strings)
  show ?thesis
    using offline_fallback_without_credential[OF k g t] g t by simp
qed

end
